theory Spec2Isabelle
  imports Main "HOL-Library.Word"
begin

unbundle bit_operations_syntax

section \<open>Data model of \<open>ulz.hpp\<close>\<close>

text \<open>
  The codec works on raw byte pointers.  A buffer is modelled by the bytes found at
  every offset from its base pointer, so that the reads and writes the code performs
  beyond the logical end of a buffer (the wide copy, the unchecked variable-length
  integer and 16-bit loads) have a place in the model: they hit whatever the caller has
  placed there.  The input buffer and the output buffer are distinct objects.

  The C++ \<open>int\<close> values (positions, lengths, counters) are modelled by \<open>int\<close>; the
  theorems that depend on the absence of signed overflow carry the bound on the input
  length.  \<open>U32\<close> values are 32-bit words, with wrap-around.  Pointer differences
  (\<open>ptrdiff_t\<close>) are 64 bits wide, so a comparison between a pointer difference and a
  \<open>U32\<close> compares the mathematical values.  Loads and stores are little-endian.
\<close>

type_synonym U8 = "8 word"
type_synonym U16 = "16 word"
type_synonym U32 = "32 word"
type_synonym mem = "int \<Rightarrow> U8"

definition EXCESS :: int where "EXCESS = 16"
definition WINDOW_BITS :: nat where "WINDOW_BITS = 17"
definition WINDOW_SIZE :: int where "WINDOW_SIZE = 2 ^ WINDOW_BITS"
definition WINDOW_MASK :: int where "WINDOW_MASK = WINDOW_SIZE - 1"
definition MIN_MATCH :: int where "MIN_MATCH = 4"
definition HASH_BITS :: nat where "HASH_BITS = 18"
definition HASH_SIZE :: int where "HASH_SIZE = 2 ^ HASH_BITS"
definition NIL :: int where "NIL = - 1"

text \<open>A byte sequence laid out from offset 0 of a buffer; the bytes after it are 0.\<close>

definition bytes :: "U8 list \<Rightarrow> mem" where
  "bytes xs i = (if 0 \<le> i \<and> i < int (length xs) then xs ! nat i else 0)"

subsection \<open>Unaligned loads, stores and the wide copy\<close>

definition UnalignedLoad16 :: "mem \<Rightarrow> int \<Rightarrow> U16" where
  "UnalignedLoad16 m p = word_of_int (uint (m p) + 256 * uint (m (p + 1)))"

definition UnalignedLoad32 :: "mem \<Rightarrow> int \<Rightarrow> U32" where
  "UnalignedLoad32 m p =
     word_of_int (uint (m p) + 256 * uint (m (p + 1)) + 65536 * uint (m (p + 2))
                  + 16777216 * uint (m (p + 3)))"

definition UnalignedStore16 :: "mem \<Rightarrow> int \<Rightarrow> U16 \<Rightarrow> mem" where
  "UnalignedStore16 m p x = m(p := ucast x, p + 1 := ucast (drop_bit 8 x))"

text \<open>
  \<open>UnalignedCopy32(d, s)\<close> loads four bytes through \<open>s\<close> and stores them through \<open>d\<close>.
  The destination always points into the buffer being written; the source points either
  into the other (read-only) buffer, or into the destination buffer itself (match
  expansion in the decoder).  The parameter \<open>src\<close> gives the bytes seen through the source
  pointer as a function of the current contents of the destination buffer: \<open>\<lambda>_. inb\<close>
  for a separate buffer \<open>inb\<close>, and \<open>\<lambda>m. m\<close> when both pointers are in one buffer.
\<close>

definition UnalignedCopy32 :: "(mem \<Rightarrow> mem) \<Rightarrow> mem \<Rightarrow> int \<Rightarrow> int \<Rightarrow> mem" where
  "UnalignedCopy32 src m d s =
     (let x = UnalignedLoad32 (src m) s
      in m(d := ucast x, d + 1 := ucast (drop_bit 8 x), d + 2 := ucast (drop_bit 16 x),
           d + 3 := ucast (drop_bit 24 x)))"

function WildCopy_loop :: "(mem \<Rightarrow> mem) \<Rightarrow> mem \<Rightarrow> int \<Rightarrow> int \<Rightarrow> int \<Rightarrow> int \<Rightarrow> mem" where
  "WildCopy_loop src m d s n i =
     (if i < n
      then WildCopy_loop src
             (UnalignedCopy32 src (UnalignedCopy32 src m (d + i) (s + i)) (d + i + 4) (s + i + 4))
             d s n (i + 8)
      else m)"
  by pat_completeness auto
termination
  by (relation "measure (\<lambda>(src, m, d, s, n, i). nat (n - i))") auto

declare WildCopy_loop.simps [simp del]

definition WildCopy :: "(mem \<Rightarrow> mem) \<Rightarrow> mem \<Rightarrow> int \<Rightarrow> int \<Rightarrow> int \<Rightarrow> mem" where
  "WildCopy src m d s n =
     WildCopy_loop src (UnalignedCopy32 src (UnalignedCopy32 src m d s) (d + 4) (s + 4)) d s n 8"

definition Hash32 :: "mem \<Rightarrow> int \<Rightarrow> U32" where
  "Hash32 m p = drop_bit (32 - HASH_BITS) (UnalignedLoad32 m p * 0x9E3779B9)"

subsection \<open>The variable-length integer\<close>

text \<open>\<open>EncodeMod(p, x)\<close> writes through \<open>p\<close> and advances it: the result is the buffer and
  the new \<open>p\<close>.\<close>

function EncodeMod :: "mem \<Rightarrow> int \<Rightarrow> U32 \<Rightarrow> mem \<times> int" where
  "EncodeMod m p x =
     (if x \<ge> 128
      then EncodeMod (m(p := ucast (128 + ((x - 128) AND 127)))) (p + 1) (drop_bit 7 (x - 128))
      else (m(p := ucast x), p + 1))"
  by pat_completeness auto
termination
proof (relation "measure (\<lambda>(m, p, x). unat x)")
  show "wf (measure (\<lambda>(m, p, x). unat x))" by simp
next
  fix m :: mem and p :: int and x :: U32
  assume h: "128 \<le> x"
  have le: "unat (128 :: U32) \<le> unat x"
    using h by (simp only: word_le_nat_alt)
  have "unat (x - 128) = unat x - 128"
    using h by (simp add: unat_sub)
  hence "unat (drop_bit 7 (x - 128)) = (unat x - 128) div 128"
    by (simp add: drop_bit_eq_div unat_div)
  moreover have "(unat x - 128) div 128 < unat x"
    using le by simp
  ultimately show "((m(p := ucast (128 + ((x - 128) AND 127))), p + 1, drop_bit 7 (x - 128)),
                    (m, p, x)) \<in> measure (\<lambda>(m, p, x). unat x)"
    by simp
qed

declare EncodeMod.simps [simp del]

text \<open>\<open>DecodeMod(p)\<close> reads through \<open>p\<close> and advances it: the result is the value and the
  new \<open>p\<close>.  The loop variable \<open>i\<close> runs over 0, 7, 14, 21, 28.\<close>

function DecodeMod_loop :: "mem \<Rightarrow> int \<Rightarrow> U32 \<Rightarrow> nat \<Rightarrow> U32 \<times> int" where
  "DecodeMod_loop m p x i =
     (if i \<le> 28
      then (let c = (ucast (m p) :: U32); x' = x + push_bit i c
            in if c < 128 then (x', p + 1) else DecodeMod_loop m (p + 1) x' (i + 7))
      else (x, p))"
  by pat_completeness auto
termination
  by (relation "measure (\<lambda>(m, p, x, i). 35 - i)") auto

declare DecodeMod_loop.simps [simp del]

definition DecodeMod :: "mem \<Rightarrow> int \<Rightarrow> U32 \<times> int" where
  "DecodeMod m p = DecodeMod_loop m p 0 0"

section \<open>Decompress\<close>

text \<open>The byte-by-byte loop \<open>while (len--) *op++=*cp++;\<close> of the short-distance path.  Both
  pointers are in the output buffer.\<close>

fun byte_copy :: "mem \<Rightarrow> int \<Rightarrow> int \<Rightarrow> nat \<Rightarrow> mem" where
  "byte_copy m d s 0 = m"
| "byte_copy m d s (Suc n) = byte_copy (m(d := m s)) (d + 1) (s + 1) n"

text \<open>
  One pass through the body of the decoder's loop ends in one of three ways: control
  reaches the end of the body (\<open>Next\<close>: the loop condition is tested again), the
  \<open>break\<close> after a literal run is taken (\<open>Stop\<close>), or the function returns (\<open>Ret\<close>).
  Each carries \<open>ip\<close>, \<open>op\<close> (as offsets from \<open>in\<close> and \<open>out\<close>) and the output buffer.
\<close>

datatype dstep = Next int int mem | Stop int int mem | Ret int mem

text \<open>Lines 277 to 290: the literal run of a token whose tag is at least 32.\<close>

definition literal_phase :: "mem \<Rightarrow> int \<Rightarrow> int \<Rightarrow> U32 \<Rightarrow> int \<Rightarrow> int \<Rightarrow> mem \<Rightarrow> dstep" where
  "literal_phase inb ip_end op_end tag ip op out =
     (if tag \<ge> 32
      then (let (run, ip1) = (if drop_bit 5 tag = 7
                              then (let (x, ip') = DecodeMod inb ip in (drop_bit 5 tag + x, ip'))
                              else (drop_bit 5 tag, ip))
            in if op_end - op < uint run \<or> ip_end - ip1 < uint run
               then Ret (- 1) out
               else (let out1 = WildCopy (\<lambda>_. inb) out op ip1 (sint run);
                         op1 = op + uint run;
                         ip2 = ip1 + uint run
                     in if ip2 \<ge> ip_end then Stop ip2 op1 out1 else Next ip2 op1 out1))
      else Next ip op out)"

text \<open>Lines 292 to 313: the match of a token.\<close>

definition match_phase :: "mem \<Rightarrow> int \<Rightarrow> U32 \<Rightarrow> int \<Rightarrow> int \<Rightarrow> mem \<Rightarrow> dstep" where
  "match_phase inb op_end tag ip op out =
     (let len0 = (tag AND 15) + word_of_int MIN_MATCH;
          (len, ip1) = (if len0 = 15 + word_of_int MIN_MATCH
                        then (let (x, ip') = DecodeMod inb ip in (len0 + x, ip'))
                        else (len0, ip))
      in if op_end - op < uint len
         then Ret (- 1) out
         else (let dist = push_bit 12 (tag AND 16) + ucast (UnalignedLoad16 inb ip1);
                   ip2 = ip1 + 2
               in if op < uint dist
                  then Ret (- 1) out
                  else (let cp = op - uint dist
                        in if dist \<ge> 4
                           then Next ip2 (op + uint len) (WildCopy (\<lambda>m. m) out op cp (sint len))
                           else Next ip2 (op + uint len) (byte_copy out op cp (unat len)))))"

definition Decompress_body :: "mem \<Rightarrow> int \<Rightarrow> int \<Rightarrow> int \<Rightarrow> int \<Rightarrow> mem \<Rightarrow> dstep" where
  "Decompress_body inb ip_end op_end ip op out =
     (let tag = (ucast (inb ip) :: U32)
      in case literal_phase inb ip_end op_end tag (ip + 1) op out of
           Next ip1 op1 out1 \<Rightarrow> match_phase inb op_end tag ip1 op1 out1
         | Stop ip1 op1 out1 \<Rightarrow> Stop ip1 op1 out1
         | Ret r out1 \<Rightarrow> Ret r out1)"

lemma DecodeMod_loop_advances: "p \<le> snd (DecodeMod_loop m p x i)"
proof (induction m p x i rule: DecodeMod_loop.induct)
  case (1 m p x i)
  show ?case
  proof (cases "i \<le> 28 \<and> \<not> (ucast (m p) :: U32) < 128")
    case True
    hence "p + 1 \<le> snd (DecodeMod_loop m (p + 1) (x + push_bit i (ucast (m p))) (i + 7))"
      using "1.IH" [of "ucast (m p)" "x + push_bit i (ucast (m p))"] by simp
    thus ?thesis using True by (subst DecodeMod_loop.simps) (simp add: Let_def)
  next
    case False
    thus ?thesis by (subst DecodeMod_loop.simps) (auto simp: Let_def)
  qed
qed

lemma DecodeMod_advances: "DecodeMod m p = (x, p') \<Longrightarrow> p \<le> p'"
  using DecodeMod_loop_advances [of p m 0 0] by (simp add: DecodeMod_def)

lemma le_add_uint: "a \<le> b \<Longrightarrow> a \<le> b + uint (w :: U32)"
  using uint_ge_0 [of w] by linarith

lemma literal_phase_advances:
  "literal_phase inb ip_end op_end tag ip op out = Next ip' op' out' \<Longrightarrow> ip \<le> ip'"
  by (auto simp: literal_phase_def Let_def split: if_splits prod.splits
           dest!: DecodeMod_advances intro: le_add_uint)

lemma match_phase_advances:
  "match_phase inb op_end tag ip op out = Next ip' op' out' \<Longrightarrow> ip < ip'"
  by (auto simp: match_phase_def Let_def split: if_splits prod.splits
           dest: DecodeMod_advances)

lemma Decompress_body_advances:
  "Decompress_body inb ip_end op_end ip op out = Next ip' op' out' \<Longrightarrow> ip < ip'"
  by (auto simp: Decompress_body_def Let_def split: dstep.splits
           dest!: literal_phase_advances match_phase_advances)

function Decompress_loop :: "mem \<Rightarrow> int \<Rightarrow> int \<Rightarrow> int \<Rightarrow> int \<Rightarrow> mem \<Rightarrow> int \<times> mem" where
  "Decompress_loop inb ip_end op_end ip op out =
     (if ip < ip_end
      then (case Decompress_body inb ip_end op_end ip op out of
              Next ip' op' out' \<Rightarrow> Decompress_loop inb ip_end op_end ip' op' out'
            | Stop ip' op' out' \<Rightarrow> (if ip' = ip_end then op' else - 1, out')
            | Ret r out' \<Rightarrow> (r, out'))
      else (if ip = ip_end then op else - 1, out))"
  by pat_completeness auto
termination
  by (relation "measure (\<lambda>(inb, ip_end, op_end, ip, op, out). nat (ip_end - ip))")
     (auto dest: Decompress_body_advances)

declare Decompress_loop.simps [simp del]

text \<open>\<open>Decompress(in, in_len, out, out_len)\<close>: the returned \<open>int\<close> and the output buffer as the
  call leaves it.\<close>

definition Decompress :: "mem \<Rightarrow> int \<Rightarrow> mem \<Rightarrow> int \<Rightarrow> int \<times> mem" where
  "Decompress inb in_len out out_len = Decompress_loop inb in_len out_len 0 0 out"

text \<open>
  The distance field of the first token of a stream whose first token has no literal run:
  bit 4 of the tag gives bit 16, and the 16-bit little-endian value that follows the tag
  (after the length's variable-length integer, when the tag's length field is 15) gives
  the low bits.
\<close>

definition first_token_dist :: "mem \<Rightarrow> U32" where
  "first_token_dist inb =
     (let tag = (ucast (inb 0) :: U32);
          ip = (if tag AND 15 = 15 then snd (DecodeMod inb 1) else 1)
      in push_bit 12 (tag AND 16) + ucast (UnalignedLoad16 inb ip))"

section \<open>Compress\<close>

text \<open>
  The state of the encoder: the two tables of the class (\<open>Head\<close> and \<open>Tail\<close>, as
  functions of the index) and the locals that live across iterations of the main loop:
  the output buffer, the output cursor \<open>op\<close> (as an offset from \<open>out\<close>), the pending
  literal run and the input position \<open>p\<close>.
\<close>

record cstate =
  Head :: "int \<Rightarrow> int"
  Tail :: "int \<Rightarrow> int"
  c_out :: mem
  c_op :: int
  c_run :: int
  c_p :: int

text \<open>\<open>max_chain=(level<8)?1<<level:WINDOW_SIZE\<close>.  It is positive; the chain counter
  that starts from it is a natural number.\<close>

definition max_chain :: "int \<Rightarrow> nat" where
  "max_chain level = (if level < 8 then 2 ^ nat level else nat WINDOW_SIZE)"

text \<open>The loop \<open>while (len<lim && in[s+len]==in[j+len]) ++len;\<close> (lines 142 and 182).\<close>

function match_extend :: "mem \<Rightarrow> int \<Rightarrow> int \<Rightarrow> int \<Rightarrow> int \<Rightarrow> int" where
  "match_extend inb s j lim len =
     (if len < lim \<and> inb (s + len) = inb (j + len)
      then match_extend inb s j lim (len + 1)
      else len)"
  by pat_completeness auto
termination
  by (relation "measure (\<lambda>(inb, s, j, lim, len). nat (lim - len))") auto

declare match_extend.simps [simp del]

text \<open>
  One candidate \<open>s\<close> of the chain walk, lines 138 to 153: the new \<open>best_len\<close> and \<open>dist\<close>,
  and whether the \<open>break\<close> of line 151 is taken.
\<close>

definition find_cand :: "mem \<Rightarrow> int \<Rightarrow> int \<Rightarrow> int \<Rightarrow> int \<Rightarrow> int \<Rightarrow> int \<times> int \<times> bool" where
  "find_cand inb p max_match s best_len dist =
     (if inb (s + best_len) = inb (p + best_len)
         \<and> UnalignedLoad32 inb s = UnalignedLoad32 inb p
      then (let len = match_extend inb s p max_match MIN_MATCH
            in if len > best_len
               then (len, p - s, len = max_match)
               else (best_len, dist, False))
      else (best_len, dist, False))"

text \<open>
  The chain walk of lines 136 to 159, entered with the first candidate \<open>s\<close>.  The counter
  \<open>chain_len\<close> is decremented once per candidate and the walk ends when it reaches 0; it
  starts from \<open>max_chain\<close>, which is positive, so the first equation is never reached
  from \<open>Compress\<close>.
\<close>

fun find_walk ::
  "mem \<Rightarrow> (int \<Rightarrow> int) \<Rightarrow> int \<Rightarrow> int \<Rightarrow> int \<Rightarrow> nat \<Rightarrow> int \<Rightarrow> int \<Rightarrow> int \<Rightarrow> int \<times> int" where
  "find_walk inb tail p max_match limit 0 s best_len dist = (best_len, dist)"
| "find_walk inb tail p max_match limit (Suc chain_len) s best_len dist =
     (if s > limit
      then (let r = find_cand inb p max_match s best_len dist
            in if snd (snd r) \<or> chain_len = 0
               then (fst r, fst (snd r))
               else find_walk inb tail p max_match limit chain_len
                      (tail (s AND WINDOW_MASK)) (fst r) (fst (snd r)))
      else (best_len, dist))"

text \<open>One candidate of the lookahead's chain walk, lines 178 to 190: whether a match of
  length \<open>target_len\<close> starts at \<open>s\<close>.\<close>

definition look_cand :: "mem \<Rightarrow> int \<Rightarrow> int \<Rightarrow> int \<Rightarrow> int \<Rightarrow> bool" where
  "look_cand inb j target_len s best_len =
     (inb (s + best_len) = inb (j + best_len)
      \<and> UnalignedLoad32 inb s = UnalignedLoad32 inb j
      \<and> match_extend inb s j target_len MIN_MATCH = target_len)"

text \<open>The chain walk of the lookahead, lines 176 to 196: the result is the new
  \<open>best_len\<close>.\<close>

fun look_walk ::
  "mem \<Rightarrow> (int \<Rightarrow> int) \<Rightarrow> int \<Rightarrow> int \<Rightarrow> int \<Rightarrow> nat \<Rightarrow> int \<Rightarrow> int \<Rightarrow> int" where
  "look_walk inb tail j target_len limit 0 s best_len = best_len"
| "look_walk inb tail j target_len limit (Suc chain_len) s best_len =
     (if s > limit
      then (if look_cand inb j target_len s best_len
            then 0
            else if chain_len = 0
                 then best_len
                 else look_walk inb tail j target_len limit chain_len
                        (tail (s AND WINDOW_MASK)) best_len)
      else best_len)"

text \<open>The loop \<open>for (int i=1; i<=2 && best_len; ++i)\<close> of lines 167 to 197.\<close>

function lookahead :: "mem \<Rightarrow> (int \<Rightarrow> int) \<Rightarrow> (int \<Rightarrow> int) \<Rightarrow> int \<Rightarrow> nat \<Rightarrow> int \<Rightarrow> int \<Rightarrow> int" where
  "lookahead inb head tail p mc i best_len =
     (if i \<le> 2 \<and> best_len \<noteq> 0
      then (let target_len = best_len + i;
                j = p + i;
                limit = max (j - WINDOW_SIZE) NIL;
                s = head (uint (Hash32 inb j))
            in lookahead inb head tail p mc (i + 1)
                 (look_walk inb tail j target_len limit mc s best_len))
      else best_len)"
  by pat_completeness auto
termination
  by (relation "measure (\<lambda>(inb, head, tail, p, mc, i, best_len). nat (3 - i))") auto

declare lookahead.simps [simp del]

text \<open>Lines 161 and 162: the suppression of a minimal match after a long run.\<close>

definition suppress_short :: "int \<Rightarrow> int \<Rightarrow> int" where
  "suppress_short best_len run = (if best_len = MIN_MATCH \<and> run \<ge> 7 + 128 then 0 else best_len)"

text \<open>Lines 132 to 159: the chain walk at position \<open>p\<close>, from the head of the bucket of
  \<open>p\<close>; the result is \<open>(best_len, dist)\<close>.\<close>

definition first_walk :: "mem \<Rightarrow> int \<Rightarrow> int \<Rightarrow> cstate \<Rightarrow> int \<times> int" where
  "first_walk inb in_len level st =
     (let p = c_p st
      in find_walk inb (Tail st) p (in_len - p) (max (p - WINDOW_SIZE) NIL) (max_chain level)
           (Head st (uint (Hash32 inb p))) (MIN_MATCH - 1) 0)"

text \<open>Lines 126 to 200: the search at position \<open>p\<close>; the result is \<open>(best_len, dist)\<close>.\<close>

definition find_match :: "mem \<Rightarrow> int \<Rightarrow> int \<Rightarrow> cstate \<Rightarrow> int \<times> int" where
  "find_match inb in_len level st =
     (let p = c_p st;
          max_match = in_len - p
      in if max_match \<ge> MIN_MATCH
         then (let (best_len, dist) = first_walk inb in_len level st;
                   best_len1 = suppress_short best_len (c_run st);
                   best_len2 = (if level = 9 \<and> best_len1 \<ge> MIN_MATCH \<and> best_len1 < max_match
                                then lookahead inb (Head st) (Tail st) p (max_chain level) 1 best_len1
                                else best_len1)
               in (best_len2, dist))
         else (MIN_MATCH - 1, 0))"

text \<open>The insertion of position \<open>p\<close> into its chain, lines 233 to 235 and 242 to 244.\<close>

definition hash_insert :: "mem \<Rightarrow> cstate \<Rightarrow> cstate" where
  "hash_insert inb st =
     (let p = c_p st;
          h = uint (Hash32 inb p)
      in st\<lparr>Tail := (Tail st)(p AND WINDOW_MASK := Head st h),
            Head := (Head st)(h := p),
            c_p := p + 1\<rparr>)"

text \<open>The loop \<open>while (best_len--)\<close> of lines 231 to 236.\<close>

fun insert_loop :: "mem \<Rightarrow> nat \<Rightarrow> cstate \<Rightarrow> cstate" where
  "insert_loop inb 0 st = st"
| "insert_loop inb (Suc n) st = insert_loop inb n (hash_insert inb st)"

text \<open>The literal run of a token: the tag byte with the low five bits \<open>tmp\<close>, the run
  length and the literals (lines 209 to 218, and 250 to 259 with \<open>tmp = 0\<close>).\<close>

definition emit_run :: "mem \<Rightarrow> int \<Rightarrow> cstate \<Rightarrow> cstate" where
  "emit_run inb tmp st =
     (let run = c_run st;
          op = c_op st;
          (out1, op1) = (if run \<ge> 7
                         then EncodeMod ((c_out st)(op := word_of_int (push_bit 5 7 + tmp)))
                                (op + 1) (word_of_int (run - 7))
                         else ((c_out st)(op := word_of_int (push_bit 5 run + tmp)), op + 1))
      in st\<lparr>c_out := WildCopy (\<lambda>_. inb) out1 op1 (c_p st - run) run, c_op := op1 + run\<rparr>)"

text \<open>Lines 204 to 236: a match of length \<open>best_len\<close> at distance \<open>dist\<close> is emitted.\<close>

definition emit_match :: "mem \<Rightarrow> int \<Rightarrow> int \<Rightarrow> cstate \<Rightarrow> cstate" where
  "emit_match inb best_len dist st =
     (let len = best_len - MIN_MATCH;
          tmp = (drop_bit 12 dist AND 16) + min len 15;
          st1 = (if c_run st \<noteq> 0
                 then (emit_run inb tmp st)\<lparr>c_run := 0\<rparr>
                 else st\<lparr>c_out := (c_out st)(c_op st := word_of_int tmp), c_op := c_op st + 1\<rparr>);
          (out2, op2) = (if len \<ge> 15
                         then EncodeMod (c_out st1) (c_op st1) (word_of_int (len - 15))
                         else (c_out st1, c_op st1));
          st2 = st1\<lparr>c_out := UnalignedStore16 out2 op2 (word_of_int dist), c_op := op2 + 2\<rparr>
      in insert_loop inb (nat best_len) st2)"

text \<open>One iteration of the main loop, lines 126 to 245.\<close>

definition Compress_step :: "mem \<Rightarrow> int \<Rightarrow> int \<Rightarrow> cstate \<Rightarrow> cstate" where
  "Compress_step inb in_len level st =
     (let (best_len, dist) = find_match inb in_len level st
      in if best_len \<ge> MIN_MATCH
         then emit_match inb best_len dist st
         else hash_insert inb (st\<lparr>c_run := c_run st + 1\<rparr>))"

lemma hash_insert_p [simp]: "c_p (hash_insert inb st) = c_p st + 1"
  by (simp add: hash_insert_def Let_def)

lemma insert_loop_p [simp]: "c_p (insert_loop inb n st) = c_p st + int n"
  by (induction n arbitrary: st) simp_all

lemma emit_run_p [simp]: "c_p (emit_run inb tmp st) = c_p st"
  by (simp add: emit_run_def Let_def split: prod.splits)

lemma emit_match_p: "c_p (emit_match inb best_len dist st) = c_p st + int (nat best_len)"
  by (simp add: emit_match_def Let_def split: prod.splits)

lemma Compress_step_advances: "c_p st < c_p (Compress_step inb in_len level st)"
  by (auto simp: Compress_step_def emit_match_p MIN_MATCH_def split: prod.splits)

function Compress_loop :: "mem \<Rightarrow> int \<Rightarrow> int \<Rightarrow> cstate \<Rightarrow> cstate" where
  "Compress_loop inb in_len level st =
     (if c_p st < in_len
      then Compress_loop inb in_len level (Compress_step inb in_len level st)
      else st)"
  by pat_completeness auto
termination
proof (relation "measure (\<lambda>(inb, in_len, level, st). nat (in_len - c_p st))")
  show "wf (measure (\<lambda>(inb, in_len, level, st). nat (in_len - c_p st)))" by simp
next
  fix inb :: mem and in_len level :: int and st :: cstate
  assume "c_p st < in_len"
  thus "((inb, in_len, level, Compress_step inb in_len level st), (inb, in_len, level, st))
          \<in> measure (\<lambda>(inb, in_len, level, st). nat (in_len - c_p st))"
    using Compress_step_advances [of st inb in_len level] by simp
qed

declare Compress_loop.simps [simp del]

text \<open>The state in which the main loop is entered: \<open>Head\<close> is reset, \<open>Tail\<close> is left as the
  previous call (or the construction of the object) left it.\<close>

definition Compress_init :: "cstate \<Rightarrow> mem \<Rightarrow> cstate" where
  "Compress_init c out =
     \<lparr>Head = (\<lambda>i. if 0 \<le> i \<and> i < HASH_SIZE then NIL else Head c i),
      Tail = Tail c, c_out = out, c_op = 0, c_run = 0, c_p = 0\<rparr>"

text \<open>Lines 248 to 262: the trailing literal run.\<close>

definition Compress_flush :: "mem \<Rightarrow> cstate \<Rightarrow> cstate" where
  "Compress_flush inb st = (if c_run st \<noteq> 0 then emit_run inb 0 st else st)"

text \<open>
  \<open>Compress(in, in_len, out, level)\<close> on an object whose tables are those of \<open>c\<close>:
  \<open>Compress_state\<close> is the state in which the function returns, \<open>Compress\<close> the value
  \<open>op-out\<close> it returns and \<open>Compress_out\<close> the output buffer it leaves.
\<close>

definition Compress_state :: "cstate \<Rightarrow> mem \<Rightarrow> int \<Rightarrow> mem \<Rightarrow> int \<Rightarrow> cstate" where
  "Compress_state c inb in_len out level =
     Compress_flush inb (Compress_loop inb in_len level (Compress_init c out))"

definition Compress :: "cstate \<Rightarrow> mem \<Rightarrow> int \<Rightarrow> mem \<Rightarrow> int \<Rightarrow> int" where
  "Compress c inb in_len out level = c_op (Compress_state c inb in_len out level)"

definition Compress_out :: "cstate \<Rightarrow> mem \<Rightarrow> int \<Rightarrow> mem \<Rightarrow> int \<Rightarrow> mem" where
  "Compress_out c inb in_len out level = c_out (Compress_state c inb in_len out level)"

section \<open>The hash-chain invariant\<close>

text \<open>
  \<open>chain_reach tail limit s q\<close>: the walk that starts at \<open>s\<close> and goes from a position to
  \<open>tail\<close> at its slot arrives at \<open>q\<close>, and every position it visits up to \<open>q\<close>, \<open>q\<close> included,
  is above \<open>limit\<close>.  These are the candidates the loops of lines 136 and 176 visit, as
  long as the chain counter lasts and no \<open>break\<close> is taken.
\<close>

inductive chain_reach :: "(int \<Rightarrow> int) \<Rightarrow> int \<Rightarrow> int \<Rightarrow> int \<Rightarrow> bool"
  for tail :: "int \<Rightarrow> int" and limit :: int where
  chain_here: "limit < s \<Longrightarrow> chain_reach tail limit s s"
| chain_next: "limit < s \<Longrightarrow> chain_reach tail limit (tail (s AND WINDOW_MASK)) q \<Longrightarrow>
               chain_reach tail limit s q"

text \<open>
  The invariant of the data model at position \<open>p\<close>: every position \<open>q\<close> of the window, from
  \<open>max(0, p - W + 1)\<close> to \<open>p - 1\<close>, is reached from the head of the bucket of its four
  bytes, before the walk falls to the limit \<open>max(p - W, NIL)\<close> that the search at \<open>p\<close> uses.
\<close>

definition hash_inv :: "mem \<Rightarrow> cstate \<Rightarrow> bool" where
  "hash_inv inb st =
     (\<forall>q. max 0 (c_p st - WINDOW_SIZE + 1) \<le> q \<and> q \<le> c_p st - 1 \<longrightarrow>
          chain_reach (Tail st) (max (c_p st - WINDOW_SIZE) NIL)
            (Head st (uint (Hash32 inb q))) q)"

text \<open>The states in which the condition of the main loop of \<open>Compress\<close> is evaluated.\<close>

inductive Compress_reach :: "cstate \<Rightarrow> mem \<Rightarrow> int \<Rightarrow> mem \<Rightarrow> int \<Rightarrow> cstate \<Rightarrow> bool"
  for c :: cstate and inb :: mem and in_len :: int and out :: mem and level :: int where
  reach_init: "Compress_reach c inb in_len out level (Compress_init c out)"
| reach_step: "Compress_reach c inb in_len out level st \<Longrightarrow> c_p st < in_len \<Longrightarrow>
               Compress_reach c inb in_len out level (Compress_step inb in_len level st)"

section \<open>Auxiliary facts\<close>

lemmas ulz_consts = EXCESS_def WINDOW_BITS_def WINDOW_SIZE_def WINDOW_MASK_def MIN_MATCH_def
  HASH_BITS_def HASH_SIZE_def NIL_def

subsection \<open>Bytes and words\<close>

lemma uint8_lt: "uint (b :: U8) < 256" using uint_bounded [of b] by simp

lemma uint_word_of_int_32: "0 \<le> k \<Longrightarrow> k < 4294967296 \<Longrightarrow> uint (word_of_int k :: U32) = k"
  by (simp add: uint_word_of_int_eq take_bit_int_eq_self)

lemma word_of_int_eq_U8: "k mod 256 = uint (b :: U8) \<Longrightarrow> word_of_int k = b"
proof -
  assume h: "k mod 256 = uint b"
  have "(word_of_int k :: U8) = word_of_int (uint b)"
    by (simp only: word_of_int_eq_iff take_bit_eq_mod h [symmetric]) simp
  thus ?thesis by simp
qed

lemma uint_load32:
  "uint (UnalignedLoad32 m p) = uint (m p) + 256 * uint (m (p + 1)) + 65536 * uint (m (p + 2))
                  + 16777216 * uint (m (p + 3))"
  unfolding UnalignedLoad32_def
  using uint8_lt [of "m p"] uint8_lt [of "m (p+1)"] uint8_lt [of "m (p+2)"] uint8_lt [of "m (p+3)"]
        uint_ge_0 [of "m p"] uint_ge_0 [of "m (p+1)"] uint_ge_0 [of "m (p+2)"] uint_ge_0 [of "m (p+3)"]
  by (intro uint_word_of_int_32) linarith+

lemma byte_step:
  fixes a k :: int
  assumes "0 \<le> a" "a < 256"
  shows "(a + 256 * k) div 256 = k" and "(a + 256 * k) mod 256 = a"
  using assms by simp_all

lemma bytes4_arith:
  fixes a b c d :: int
  assumes "0 \<le> a" "a < 256" "0 \<le> b" "b < 256" "0 \<le> c" "c < 256" "0 \<le> d" "d < 256"
  shows "(a + 256 * b + 65536 * c + 16777216 * d) mod 256 = a"
    and "(a + 256 * b + 65536 * c + 16777216 * d) div 256 mod 256 = b"
    and "(a + 256 * b + 65536 * c + 16777216 * d) div 65536 mod 256 = c"
    and "(a + 256 * b + 65536 * c + 16777216 * d) div 16777216 mod 256 = d"
proof -
  let ?x = "a + 256 * b + 65536 * c + 16777216 * d"
  have x: "?x = a + 256 * (b + 256 * (c + 256 * d))" by simp
  have d1: "?x div 256 = b + 256 * (c + 256 * d)"
    by (simp only: x byte_step(1) [OF assms(1,2)])
  have d2: "?x div 65536 = c + 256 * d"
  proof -
    have "?x div 65536 = (?x div 256) div 256"
      by (simp only: div_mult2_eq [symmetric])
    thus ?thesis by (simp only: d1 byte_step(1) [OF assms(3,4)])
  qed
  have d3: "?x div 16777216 = d"
  proof -
    have "?x div 16777216 = (?x div 65536) div 256"
      by (simp only: div_mult2_eq [symmetric])
    thus ?thesis by (simp only: d2 byte_step(1) [OF assms(5,6)])
  qed
  show "?x mod 256 = a" by (simp only: x byte_step(2) [OF assms(1,2)])
  show "?x div 256 mod 256 = b" by (simp only: d1 byte_step(2) [OF assms(3,4)])
  show "?x div 65536 mod 256 = c" by (simp only: d2 byte_step(2) [OF assms(5,6)])
  show "?x div 16777216 mod 256 = d" using assms(7,8) by (simp add: d3)
qed

lemma ucast_drop_bit_U32:
  "(ucast (drop_bit 8 (x :: U32)) :: U8) = word_of_int (uint x div 256)"
  "(ucast (drop_bit 16 (x :: U32)) :: U8) = word_of_int (uint x div 65536)"
  "(ucast (drop_bit 24 (x :: U32)) :: U8) = word_of_int (uint x div 16777216)"
  by (simp_all add: ucast_eq drop_bit_eq_div uint_div_distrib)

lemma uint_drop_bit_U32:
  "uint (drop_bit 8 (x :: U32)) = uint x div 256"
  "uint (drop_bit 16 (x :: U32)) = uint x div 65536"
  "uint (drop_bit 24 (x :: U32)) = uint x div 16777216"
  by (simp_all add: drop_bit_eq_div uint_div_distrib)

lemma load32_bytes:
  "(ucast (UnalignedLoad32 m p) :: U8) = m p"
  "(ucast (drop_bit 8 (UnalignedLoad32 m p)) :: U8) = m (p + 1)"
  "(ucast (drop_bit 16 (UnalignedLoad32 m p)) :: U8) = m (p + 2)"
  "(ucast (drop_bit 24 (UnalignedLoad32 m p)) :: U8) = m (p + 3)"
  using uint8_lt [of "m p"] uint8_lt [of "m (p+1)"] uint8_lt [of "m (p+2)"] uint8_lt [of "m (p+3)"]
        uint_ge_0 [of "m p"] uint_ge_0 [of "m (p+1)"] uint_ge_0 [of "m (p+2)"] uint_ge_0 [of "m (p+3)"]
  by (simp_all only: ucast_eq uint_drop_bit_U32 uint_load32)
     (rule word_of_int_eq_U8, simp only: bytes4_arith)+

lemma UnalignedCopy32_apply:
  "UnalignedCopy32 src m d s q = (if d \<le> q \<and> q < d + 4 then src m (s + (q - d)) else m q)"
proof -
  have "q = d \<or> q = d + 1 \<or> q = d + 2 \<or> q = d + 3 \<or> \<not> (d \<le> q \<and> q < d + 4)" by linarith
  thus ?thesis
    by (auto simp: UnalignedCopy32_def Let_def load32_bytes)
qed

lemma load32_eq_iff:
  "UnalignedLoad32 m p = UnalignedLoad32 m' p' \<longleftrightarrow>
     m p = m' p' \<and> m (p + 1) = m' (p' + 1) \<and> m (p + 2) = m' (p' + 2) \<and> m (p + 3) = m' (p' + 3)"
  (is "?l \<longleftrightarrow> ?r")
proof
  assume ?l
  thus ?r using load32_bytes [of m p] load32_bytes [of m' p'] by metis
next
  assume ?r
  thus ?l by (simp add: UnalignedLoad32_def)
qed


lemma WildCopy_loop_frame:
  "q < d + i \<or> q \<ge> d + max i (n + 7) \<Longrightarrow> WildCopy_loop src m d s n i q = m q"
proof (induction src m d s n i rule: WildCopy_loop.induct)
  case (1 src m d s n i)
  show ?case
  proof (cases "i < n")
    case True
    let ?m2 = "UnalignedCopy32 src (UnalignedCopy32 src m (d + i) (s + i)) (d + i + 4) (s + i + 4)"
    have "WildCopy_loop src ?m2 d s n (i + 8) q = ?m2 q"
      using "1.IH" [OF True] "1.prems" True by auto
    moreover have "?m2 q = m q"
      using "1.prems" True by (auto simp: UnalignedCopy32_apply)
    ultimately show ?thesis using True by (subst WildCopy_loop.simps) simp
  next
    case False
    thus ?thesis by (subst WildCopy_loop.simps) simp
  qed
qed

lemma WildCopy_frame:
  "q < d \<or> q \<ge> d + max 8 (n + 7) \<Longrightarrow> WildCopy src m d s n q = m q"
  unfolding WildCopy_def
  by (subst WildCopy_loop_frame) (auto simp: UnalignedCopy32_apply)

lemma WildCopy_loop_lit:
  "i \<le> k \<Longrightarrow> k < n \<Longrightarrow> WildCopy_loop (\<lambda>_. inb) m d s n i (d + k) = inb (s + k)"
proof (induction "\<lambda>_ :: mem. inb" m d s n i rule: WildCopy_loop.induct)
  case (1 m d s n i)
  have lt: "i < n" using "1.prems" by simp
  let ?m2 = "UnalignedCopy32 (\<lambda>_. inb) (UnalignedCopy32 (\<lambda>_. inb) m (d + i) (s + i))
               (d + i + 4) (s + i + 4)"
  have "WildCopy_loop (\<lambda>_. inb) ?m2 d s n (i + 8) (d + k) = inb (s + k)"
  proof (cases "i + 8 \<le> k")
    case True
    thus ?thesis using "1.hyps" [OF lt] "1.prems" by simp
  next
    case False
    hence "WildCopy_loop (\<lambda>_. inb) ?m2 d s n (i + 8) (d + k) = ?m2 (d + k)"
      by (intro WildCopy_loop_frame) simp
    also have "\<dots> = inb (s + k)"
      using False "1.prems" by (auto simp: UnalignedCopy32_apply)
    finally show ?thesis .
  qed
  thus ?case using lt by (subst WildCopy_loop.simps) simp
qed


lemma WildCopy_lit:
  assumes "0 \<le> k" "k < max 8 n"
  shows "WildCopy (\<lambda>_. inb) m d s n (d + k) = inb (s + k)"
proof (cases "8 \<le> k")
  case True
  thus ?thesis using assms unfolding WildCopy_def by (intro WildCopy_loop_lit) auto
next
  case False
  let ?m2 = "UnalignedCopy32 (\<lambda>_. inb) (UnalignedCopy32 (\<lambda>_. inb) m d s) (d + 4) (s + 4)"
  have "WildCopy (\<lambda>_. inb) m d s n (d + k) = ?m2 (d + k)"
    unfolding WildCopy_def using False by (intro WildCopy_loop_frame) simp
  also have "\<dots> = inb (s + k)"
    using False assms(1) by (auto simp: UnalignedCopy32_apply)
  finally show ?thesis .
qed

lemma WildCopy_loop_cong:
  "(\<And>q. s + i \<le> q \<Longrightarrow> q < s + max i (n + 7) \<Longrightarrow> inb q = inb' q) \<Longrightarrow>
   WildCopy_loop (\<lambda>_. inb) m d s n i = WildCopy_loop (\<lambda>_. inb') m d s n i"
proof (induction "\<lambda>_ :: mem. inb" m d s n i rule: WildCopy_loop.induct)
  case (1 m d s n i)
  show ?case
  proof (cases "i < n")
    case True
    let ?m2 = "UnalignedCopy32 (\<lambda>_. inb) (UnalignedCopy32 (\<lambda>_. inb) m (d + i) (s + i))
               (d + i + 4) (s + i + 4)"
    let ?m2' = "UnalignedCopy32 (\<lambda>_. inb') (UnalignedCopy32 (\<lambda>_. inb') m (d + i) (s + i))
               (d + i + 4) (s + i + 4)"
    have eq: "?m2 = ?m2'"
    proof
      fix q
      show "?m2 q = ?m2' q"
        using True "1.prems" [of "s + (q - d)"] "1.prems" [of "s + i + 4 + (q - (d + i + 4))"]
        by (auto simp: UnalignedCopy32_apply)
    qed
    have "WildCopy_loop (\<lambda>_. inb) ?m2 d s n (i + 8) = WildCopy_loop (\<lambda>_. inb') ?m2 d s n (i + 8)"
      using True "1.prems" by (intro "1.hyps") auto
    thus ?thesis using True eq
      by (subst WildCopy_loop.simps, subst (2) WildCopy_loop.simps) simp
  next
    case False
    thus ?thesis by (subst WildCopy_loop.simps, subst (2) WildCopy_loop.simps) simp
  qed
qed

lemma WildCopy_cong:
  assumes "\<And>q. s \<le> q \<Longrightarrow> q < s + max 8 (n + 7) \<Longrightarrow> inb q = inb' q"
  shows "WildCopy (\<lambda>_. inb) m d s n = WildCopy (\<lambda>_. inb') m d s n"
proof -
  let ?m2 = "UnalignedCopy32 (\<lambda>_. inb) (UnalignedCopy32 (\<lambda>_. inb) m d s) (d + 4) (s + 4)"
  let ?m2' = "UnalignedCopy32 (\<lambda>_. inb') (UnalignedCopy32 (\<lambda>_. inb') m d s) (d + 4) (s + 4)"
  have eq: "?m2 = ?m2'"
  proof
    fix q
    show "?m2 q = ?m2' q"
      using assms [of "s + (q - d)"] assms [of "s + 4 + (q - (d + 4))"]
      by (auto simp: UnalignedCopy32_apply)
  qed
  have "WildCopy_loop (\<lambda>_. inb) ?m2 d s n 8 = WildCopy_loop (\<lambda>_. inb') ?m2 d s n 8"
    using assms by (intro WildCopy_loop_cong) auto
  thus ?thesis by (simp add: WildCopy_def eq)
qed

lemma WildCopy_loop_self:
  "s + 4 \<le> d \<Longrightarrow> i \<le> k \<Longrightarrow> k < n \<Longrightarrow>
   WildCopy_loop (\<lambda>m. m) m d s n i (d + k) = WildCopy_loop (\<lambda>m. m) m d s n i (s + k)"
proof (induction "\<lambda>m :: mem. m" m d s n i rule: WildCopy_loop.induct)
  case (1 m d s n i)
  have lt: "i < n" using "1.prems" by simp
  have sd: "s + 4 \<le> d" using "1.prems" by simp
  let ?m1 = "UnalignedCopy32 (\<lambda>m. m) m (d + i) (s + i)"
  let ?m2 = "UnalignedCopy32 (\<lambda>m. m) ?m1 (d + i + 4) (s + i + 4)"
  let ?r = "WildCopy_loop (\<lambda>m. m) ?m2 d s n (i + 8)"
  have "?r (d + k) = ?r (s + k)"
  proof (cases "i + 8 \<le> k")
    case True
    thus ?thesis using "1.hyps" [OF lt] "1.prems" by simp
  next
    case False
    have a: "?r (d + k) = ?m2 (d + k)"
      using False by (intro WildCopy_loop_frame) simp
    have b: "?r (s + k) = ?m2 (s + k)"
      using False sd by (intro WildCopy_loop_frame) simp
    have "?m2 (d + k) = ?m2 (s + k)"
      using False "1.prems" sd by (auto simp: UnalignedCopy32_apply)
    thus ?thesis using a b by simp
  qed
  thus ?case using lt by (subst WildCopy_loop.simps, subst (2) WildCopy_loop.simps) simp
qed

lemma WildCopy_self:
  assumes "s + 4 \<le> d" "0 \<le> k" "k < max 8 n"
  shows "WildCopy (\<lambda>m. m) m d s n (d + k) = WildCopy (\<lambda>m. m) m d s n (s + k)"
proof (cases "8 \<le> k")
  case True
  thus ?thesis using assms unfolding WildCopy_def by (intro WildCopy_loop_self) auto
next
  case False
  let ?m2 = "UnalignedCopy32 (\<lambda>m. m) (UnalignedCopy32 (\<lambda>m. m) m d s) (d + 4) (s + 4)"
  have a: "WildCopy (\<lambda>m. m) m d s n (d + k) = ?m2 (d + k)"
    unfolding WildCopy_def using False by (intro WildCopy_loop_frame) simp
  have b: "WildCopy (\<lambda>m. m) m d s n (s + k) = ?m2 (s + k)"
    unfolding WildCopy_def using False assms(1) by (intro WildCopy_loop_frame) simp
  have "?m2 (d + k) = ?m2 (s + k)"
    using False assms by (auto simp: UnalignedCopy32_apply)
  thus ?thesis using a b by simp
qed

lemma byte_copy_frame: "q < d \<or> q \<ge> d + int n \<Longrightarrow> byte_copy m d s n q = m q"
  by (induction n arbitrary: m d s) auto

lemma byte_copy_self:
  "s < d \<Longrightarrow> 0 \<le> k \<Longrightarrow> k < int n \<Longrightarrow>
   byte_copy m d s n (d + k) = byte_copy m d s n (s + k)"
proof (induction n arbitrary: m d s k)
  case 0
  thus ?case by simp
next
  case (Suc n)
  let ?m1 = "m(d := m s)"
  show ?case
  proof (cases "k = 0")
    case True
    have "byte_copy ?m1 (d + 1) (s + 1) n d = ?m1 d" by (intro byte_copy_frame) simp
    moreover have "byte_copy ?m1 (d + 1) (s + 1) n s = ?m1 s"
      using Suc.prems by (intro byte_copy_frame) simp
    ultimately show ?thesis using True Suc.prems by simp
  next
    case False
    hence "byte_copy ?m1 (d + 1) (s + 1) n (d + 1 + (k - 1))
           = byte_copy ?m1 (d + 1) (s + 1) n (s + 1 + (k - 1))"
      using Suc.prems by (intro Suc.IH) auto
    thus ?thesis by simp
  qed
qed

text \<open>Two buffers that agree below \<open>d\<close> and both repeat with period \<open>dist\<close> from
  \<open>d\<close> on agree on the repeated part.\<close>

lemma periodic_unique:
  fixes a b :: mem
  assumes below: "\<And>q. q < d \<Longrightarrow> a q = b q"
      and ra: "\<And>k. 0 \<le> k \<Longrightarrow> k < n \<Longrightarrow> a (d + k) = a (d - dist + k)"
      and rb: "\<And>k. 0 \<le> k \<Longrightarrow> k < n \<Longrightarrow> b (d + k) = b (d - dist + k)"
      and dist: "0 < dist"
  shows "0 \<le> k \<Longrightarrow> k < n \<Longrightarrow> a (d + k) = b (d + k)"
proof (induction "nat k" arbitrary: k rule: less_induct)
  case less
  show ?case
  proof (cases "k < dist")
    case True
    thus ?thesis using ra [of k] rb [of k] below [of "d - dist + k"] less.prems by simp
  next
    case False
    hence "a (d + (k - dist)) = b (d + (k - dist))"
      using less.prems dist by (intro less.hyps) auto
    thus ?thesis using ra [of k] rb [of k] less.prems
      by (simp add: algebra_simps)
  qed
qed


lemma sint_eq_uint_U32: "uint (w :: U32) < 2147483648 \<Longrightarrow> sint w = uint w"
proof -
  assume "uint w < 2147483648"
  hence hi: "uint w < 2 ^ 31" by simp
  have "- (2 ^ 31) \<le> (0 :: int)" by simp
  hence lo: "- (2 ^ 31) \<le> uint w" using uint_ge_0 [of w] by linarith
  have "signed_take_bit 31 (uint w) = uint w"
    using lo hi by (rule signed_take_bit_int_eq_self)
  thus ?thesis by (simp add: sint_uint)
qed


lemma uint_ucast_ucast_U8: "uint (ucast (ucast (w :: U32) :: U8) :: U32) = uint w mod 256"
  by (simp add: unsigned_ucast_eq take_bit_eq_mod uint_mod_distrib)

lemma ucast_ucast_U8: "w < 256 \<Longrightarrow> (ucast (ucast (w :: U32) :: U8) :: U32) = w"
proof -
  assume "w < 256"
  hence "uint w < 256" by (simp add: word_less_def)
  hence "uint w mod 256 = uint w" using uint_ge_0 [of w] by simp
  thus ?thesis by (intro word_uint_eqI) (simp only: uint_ucast_ucast_U8)
qed

lemma and127: "(y :: U32) AND 127 = take_bit 7 y"
  by (simp add: take_bit_eq_mask mask_eq_exp_minus_1)

lemma uint_and127: "uint ((y :: U32) AND 127) = uint y mod 128"
  by (simp add: and127 take_bit_eq_mod uint_mod_distrib)

lemma uint_enc_byte: "uint (128 + ((y :: U32) AND 127)) = 128 + uint y mod 128"
proof -
  have "uint y mod 128 < 128" by simp
  moreover have "0 \<le> uint y mod 128" by simp
  ultimately show ?thesis
    by (simp add: uint_plus_if' uint_and127)
qed

lemma enc_byte_lt: "128 + ((y :: U32) AND 127) < 256"
  using uint_enc_byte [of y] by (simp add: word_less_def)

lemma enc_byte_ge: "\<not> 128 + ((y :: U32) AND 127) < 128"
  using uint_enc_byte [of y] by (simp add: word_less_def)

lemma enc_byte_split: "128 + ((y :: U32) AND 127) + push_bit 7 (drop_bit 7 y) = y + 128"
  using bits_ident [of 7 y] by (simp add: and127 add.commute add.left_commute)


lemma enc_byte_join: "128 + (((x :: U32) - 128) AND 127) + push_bit 7 (drop_bit 7 (x - 128)) = x"
  using enc_byte_split [of "x - 128"] by simp

lemma unat_enc_rest:
  assumes "128 \<le> (x :: U32)"
  shows "unat (drop_bit 7 (x - 128)) = (unat x - 128) div 128"
proof -
  have "unat (x - 128) = unat x - 128"
    using assms by (simp add: unat_sub)
  thus ?thesis by (simp add: drop_bit_eq_div unat_div)
qed

lemma EncodeMod_DecodeMod_loop:
  "EncodeMod m p x = (m', p') \<Longrightarrow> unat x < 2 ^ (32 - 7 * j) \<Longrightarrow> j \<le> 4 \<Longrightarrow>
   (\<And>q. p \<le> q \<Longrightarrow> q < p' \<Longrightarrow> m'' q = m' q) \<Longrightarrow>
   p < p' \<and> p' \<le> p + 5 - int j
   \<and> DecodeMod_loop m'' p x0 (7 * j) = (x0 + push_bit (7 * j) x, p')
   \<and> (\<forall>q. q < p \<or> p' \<le> q \<longrightarrow> m' q = m q)"
proof (induction m p x arbitrary: j x0 rule: EncodeMod.induct)
  case (1 m p x)
  show ?case
  proof (cases "128 \<le> x")
    case True
    let ?c = "128 + ((x - 128) AND 127)"
    let ?x1 = "drop_bit 7 (x - 128)"
    let ?m1 = "m(p := ucast ?c)"
    have enc: "EncodeMod ?m1 (p + 1) ?x1 = (m', p')"
      using "1.prems"(1) True by (subst (asm) EncodeMod.simps) simp
    have ux: "128 \<le> unat x" using True by (simp add: word_le_nat_alt)
    have j3: "j \<le> 3"
    proof (rule ccontr)
      assume "\<not> j \<le> 3"
      hence "j = 4" using "1.prems"(3) by simp
      thus False using "1.prems"(2) ux by simp
    qed
    have "(2::nat) ^ (32 - 7 * j) = 128 * 2 ^ (32 - 7 * Suc j)"
    proof -
      have "32 - 7 * j = 7 + (32 - 7 * Suc j)" using j3 by simp
      thus ?thesis by (simp only: power_add) simp
    qed
    hence x1: "unat ?x1 < 2 ^ (32 - 7 * Suc j)"
      using "1.prems"(2) ux by (simp add: unat_enc_rest [OF True])
    have IH: "p + 1 < p' \<and> p' \<le> p + 1 + 5 - int (Suc j)
       \<and> DecodeMod_loop m'' (p + 1) (x0 + push_bit (7 * j) ?c) (7 * Suc j)
           = (x0 + push_bit (7 * j) ?c + push_bit (7 * Suc j) ?x1, p')
       \<and> (\<forall>q. q < p + 1 \<or> p' \<le> q \<longrightarrow> m' q = ?m1 q)"
      using j3 "1.prems"(4) by (intro "1.IH" [OF True enc x1]) auto
    hence mp: "m' p = ucast ?c" by simp
    have "m'' p = ucast ?c" using "1.prems"(4) [of p] IH mp by simp
    hence c: "(ucast (m'' p) :: U32) = ?c" by (simp add: ucast_ucast_U8 enc_byte_lt)
    have "push_bit (7 * j) ?c + push_bit (7 * Suc j) ?x1 = push_bit (7 * j) (?c + push_bit 7 ?x1)"
      by (simp add: push_bit_add push_bit_push_bit add.commute)
    hence "push_bit (7 * j) ?c + push_bit (7 * Suc j) ?x1 = push_bit (7 * j) x"
      by (simp only: enc_byte_join)
    hence sum: "x0 + push_bit (7 * j) ?c + push_bit (7 * Suc j) ?x1 = x0 + push_bit (7 * j) x"
      by (simp only: add.assoc)
    have "DecodeMod_loop m'' p x0 (7 * j)
          = DecodeMod_loop m'' (p + 1) (x0 + push_bit (7 * j) ?c) (7 * Suc j)"
      using j3 by (subst DecodeMod_loop.simps) (simp add: c enc_byte_ge Let_def add.commute)
    thus ?thesis using IH sum by auto
  next
    case False
    hence enc: "m' = m(p := ucast x)" "p' = p + 1"
      using "1.prems"(1) by (subst (asm) EncodeMod.simps, simp)+
    have lt: "x < 128" using False by simp
    hence "x < 256" by (simp add: word_less_def)
    hence c: "(ucast (m'' p) :: U32) = x"
      using "1.prems"(4) [of p] enc by (simp add: ucast_ucast_U8)
    have "DecodeMod_loop m'' p x0 (7 * j) = (x0 + push_bit (7 * j) x, p + 1)"
      using "1.prems"(3) lt by (subst DecodeMod_loop.simps) (simp add: c Let_def)
    thus ?thesis using enc "1.prems"(3) by auto
  qed
qed

subsection \<open>The decoder stays within eight bytes of its buffers\<close>

lemma sint_le_uint_U32: "sint (w :: U32) \<le> uint w"
proof (cases "uint w < 2147483648")
  case True
  thus ?thesis using sint_eq_uint_U32 [of w] by linarith
next
  case False
  moreover have "sint w < 2147483648" using sint_lt [of w] by simp
  ultimately show ?thesis by linarith
qed

lemma div7_step: "i \<le> 28 \<Longrightarrow> (35 - i) div 7 = 1 + (35 - (i + 7)) div (7 :: nat)"
proof -
  assume "i \<le> 28"
  hence "35 - i = 7 + (35 - (i + 7))" by simp
  hence "(35 - i) div 7 = (7 + (35 - (i + 7))) div 7" by (rule arg_cong)
  thus ?thesis by (simp only: div_add_self1)
qed

lemma DecodeMod_loop_bound: "snd (DecodeMod_loop m p x i) \<le> p + int ((35 - i) div 7)"
proof (induction m p x i rule: DecodeMod_loop.induct)
  case (1 m p x i)
  show ?case
  proof (cases "i \<le> 28")
    case i28: True
    hence d: "int ((35 - i) div 7) = 1 + int ((35 - (i + 7)) div 7)"
      using div7_step [of i] by linarith
    show ?thesis
    proof (cases "(ucast (m p) :: U32) < 128")
      case True
      hence "DecodeMod_loop m p x i = (x + push_bit i (ucast (m p)), p + 1)"
        using i28 by (subst DecodeMod_loop.simps) (simp add: Let_def)
      thus ?thesis using d by simp
    next
      case False
      hence "snd (DecodeMod_loop m (p + 1) (x + push_bit i (ucast (m p))) (i + 7))
             \<le> p + 1 + int ((35 - (i + 7)) div 7)"
        using "1.IH" [OF i28 refl refl] by simp
      moreover have "snd (DecodeMod_loop m p x i)
                     = snd (DecodeMod_loop m (p + 1) (x + push_bit i (ucast (m p))) (i + 7))"
        using i28 False by (subst DecodeMod_loop.simps) (simp add: Let_def)
      ultimately show ?thesis using d by linarith
    qed
  next
    case False
    hence "DecodeMod_loop m p x i = (x, p)" by (subst DecodeMod_loop.simps) simp
    thus ?thesis by simp
  qed
qed

lemma DecodeMod_bound: "DecodeMod m p = (x, p') \<Longrightarrow> p' \<le> p + 5"
  using DecodeMod_loop_bound [of m p 0 0] by (simp add: DecodeMod_def)

lemma DecodeMod_loop_cong:
  "(\<And>q. p \<le> q \<Longrightarrow> q < p + int ((35 - i) div 7) \<Longrightarrow> m q = m' q) \<Longrightarrow>
   DecodeMod_loop m p x i = DecodeMod_loop m' p x i"
proof (induction m p x i rule: DecodeMod_loop.induct)
  case (1 m p x i)
  show ?case
  proof (cases "i \<le> 28")
    case i28: True
    hence d: "int ((35 - i) div 7) = 1 + int ((35 - (i + 7)) div 7)"
      using div7_step [of i] by linarith
    have eq: "m p = m' p" using "1.prems" [of p] d by linarith
    show ?thesis
    proof (cases "(ucast (m p) :: U32) < 128")
      case True
      thus ?thesis using i28 eq
        by (subst DecodeMod_loop.simps, subst (2) DecodeMod_loop.simps) (simp add: Let_def)
    next
      case False
      have agree: "m q = m' q" if "p + 1 \<le> q" "q < p + 1 + int ((35 - (i + 7)) div 7)" for q
        using "1.prems" [of q] that d by linarith
      have "DecodeMod_loop m (p + 1) (x + push_bit i (ucast (m p))) (i + 7)
            = DecodeMod_loop m' (p + 1) (x + push_bit i (ucast (m p))) (i + 7)"
        using False agree by (intro "1.IH" [OF i28 refl refl])
      thus ?thesis using i28 eq False
        by (subst DecodeMod_loop.simps, subst (2) DecodeMod_loop.simps) (simp add: Let_def)
    qed
  next
    case False
    thus ?thesis by (subst DecodeMod_loop.simps, subst (2) DecodeMod_loop.simps) simp
  qed
qed

lemma DecodeMod_cong:
  assumes "\<And>q. p \<le> q \<Longrightarrow> q < p + 5 \<Longrightarrow> m q = m' q"
  shows "DecodeMod m p = DecodeMod m' p"
proof -
  have "((35 :: nat) - 0) div 7 = 5" by simp
  hence "m q = m' q" if "p \<le> q" "q < p + int ((35 - 0) div 7)" for q
    using assms [of q] that by simp
  thus ?thesis unfolding DecodeMod_def by (rule DecodeMod_loop_cong)
qed


text \<open>What one pass through the body of the decoder's loop may do to \<open>op\<close> and to the output
  buffer, when it starts with \<open>op\<close> within the capacity.\<close>

definition step_safe :: "int \<Rightarrow> int \<Rightarrow> mem \<Rightarrow> dstep \<Rightarrow> bool" where
  "step_safe op_end op out r =
     (case r of
        Next ip' op' out' \<Rightarrow> op \<le> op' \<and> op' \<le> op_end
                             \<and> (\<forall>q. q < op \<or> op_end + 8 \<le> q \<longrightarrow> out' q = out q)
      | Stop ip' op' out' \<Rightarrow> op \<le> op' \<and> op' \<le> op_end
                             \<and> (\<forall>q. q < op \<or> op_end + 8 \<le> q \<longrightarrow> out' q = out q)
      | Ret r out' \<Rightarrow> r = - 1 \<and> (\<forall>q. q < op \<or> op_end + 8 \<le> q \<longrightarrow> out' q = out q))"

lemma WildCopy_frame_U32:
  assumes "uint (n :: U32) \<le> op_end - op" and "q < op \<or> op_end + 8 \<le> q"
  shows "WildCopy src out op s (sint n) q = out q"
proof -
  have "sint n \<le> uint n" by (rule sint_le_uint_U32)
  hence "q < op \<or> op + max 8 (sint n + 7) \<le> q"
    using assms uint_ge_0 [of n] by linarith
  thus ?thesis by (rule WildCopy_frame)
qed

lemma literal_phase_safe:
  assumes "op \<le> op_end"
  shows "step_safe op_end op out (literal_phase inb ip_end op_end tag ip op out)"
proof (cases "32 \<le> tag")
  case False
  thus ?thesis using assms by (simp add: literal_phase_def step_safe_def)
next
  case True
  obtain run ip1 where r: "(if drop_bit 5 tag = 7
                              then (let (x, ip') = DecodeMod inb ip in (drop_bit 5 tag + x, ip'))
                              else (drop_bit 5 tag, ip)) = (run, ip1)"
    by (cases "(if drop_bit 5 tag = 7
                              then (let (x, ip') = DecodeMod inb ip in (drop_bit 5 tag + x, ip'))
                              else (drop_bit 5 tag, ip))")
  show ?thesis
  proof (cases "op_end - op < uint run \<or> ip_end - ip1 < uint run")
    case True
    thus ?thesis using \<open>32 \<le> tag\<close> r by (simp add: literal_phase_def step_safe_def)
  next
    case False
    hence le: "uint run \<le> op_end - op" by simp
    have "WildCopy (\<lambda>_. inb) out op ip1 (sint run) q = out q" if "q < op \<or> op_end + 8 \<le> q" for q
      using le that by (rule WildCopy_frame_U32)
    thus ?thesis using \<open>32 \<le> tag\<close> r False le uint_ge_0 [of run]
      by (simp add: literal_phase_def step_safe_def Let_def)
  qed
qed

lemma match_phase_safe:
  assumes "op \<le> op_end"
  shows "step_safe op_end op out (match_phase inb op_end tag ip op out)"
proof -
  let ?len0 = "(tag AND 15) + word_of_int MIN_MATCH"
  obtain len ip1 where r: "(if ?len0 = 15 + word_of_int MIN_MATCH
                        then (let (x, ip') = DecodeMod inb ip in (?len0 + x, ip'))
                        else (?len0, ip)) = (len, ip1)"
    by (cases "(if ?len0 = 15 + word_of_int MIN_MATCH
                        then (let (x, ip') = DecodeMod inb ip in (?len0 + x, ip'))
                        else (?len0, ip))")
  let ?dist = "push_bit 12 (tag AND 16) + ucast (UnalignedLoad16 inb ip1) :: U32"
  show ?thesis
  proof (cases "op_end - op < uint len \<or> op < uint ?dist")
    case True
    thus ?thesis using r by (auto simp: match_phase_def step_safe_def Let_def)
  next
    case False
    hence le: "uint len \<le> op_end - op" by simp
    have w: "WildCopy (\<lambda>m. m) out op (op - uint ?dist) (sint len) q = out q"
      if "q < op \<or> op_end + 8 \<le> q" for q
      using le that by (rule WildCopy_frame_U32)
    have b: "byte_copy out op (op - uint ?dist) (unat len) q = out q"
      if "q < op \<or> op_end + 8 \<le> q" for q
      using le that by (intro byte_copy_frame) (simp flip: uint_nat, linarith)
    show ?thesis using r False le uint_ge_0 [of len] w b
      by (simp add: match_phase_def step_safe_def Let_def)
  qed
qed

lemma Decompress_body_safe:
  assumes "op \<le> op_end"
  shows "step_safe op_end op out (Decompress_body inb ip_end op_end ip op out)"
proof -
  let ?tag = "ucast (inb ip) :: U32"
  have l: "step_safe op_end op out (literal_phase inb ip_end op_end ?tag (ip + 1) op out)"
    using assms by (rule literal_phase_safe)
  show ?thesis
  proof (cases "literal_phase inb ip_end op_end ?tag (ip + 1) op out")
    case (Next ip1 op1 out1)
    hence a: "op \<le> op1" "op1 \<le> op_end" "\<And>q. q < op \<or> op_end + 8 \<le> q \<Longrightarrow> out1 q = out q"
      using l by (auto simp: step_safe_def)
    have m: "step_safe op_end op1 out1 (match_phase inb op_end ?tag ip1 op1 out1)"
      using a(2) by (rule match_phase_safe)
    have "step_safe op_end op out (match_phase inb op_end ?tag ip1 op1 out1)"
      using m a by (cases "match_phase inb op_end ?tag ip1 op1 out1") (auto simp: step_safe_def)
    thus ?thesis using Next by (simp add: Decompress_body_def)
  next
    case (Stop ip1 op1 out1)
    thus ?thesis using l by (simp add: Decompress_body_def)
  next
    case (Ret r out1)
    thus ?thesis using l by (simp add: Decompress_body_def)
  qed
qed

lemma Decompress_loop_safe:
  "0 \<le> op \<Longrightarrow> op \<le> op_end \<Longrightarrow>
   (fst (Decompress_loop inb ip_end op_end ip op out) = - 1
    \<or> (0 \<le> fst (Decompress_loop inb ip_end op_end ip op out)
       \<and> fst (Decompress_loop inb ip_end op_end ip op out) \<le> op_end))
   \<and> (\<forall>q. q < op \<or> op_end + 8 \<le> q \<longrightarrow>
          snd (Decompress_loop inb ip_end op_end ip op out) q = out q)"
proof (induction inb ip_end op_end ip op out rule: Decompress_loop.induct)
  case (1 inb ip_end op_end ip op out)
  show ?case
  proof (cases "ip < ip_end")
    case False
    thus ?thesis using "1.prems" by (subst (1 2 3 4) Decompress_loop.simps) simp
  next
    case True
    have s: "step_safe op_end op out (Decompress_body inb ip_end op_end ip op out)"
      using "1.prems"(2) by (rule Decompress_body_safe)
    show ?thesis
    proof (cases "Decompress_body inb ip_end op_end ip op out")
      case (Next ip' op' out')
      hence a: "op \<le> op'" "op' \<le> op_end" "\<And>q. q < op \<or> op_end + 8 \<le> q \<Longrightarrow> out' q = out q"
        using s by (auto simp: step_safe_def)
      have IH: "(fst (Decompress_loop inb ip_end op_end ip' op' out') = - 1
          \<or> (0 \<le> fst (Decompress_loop inb ip_end op_end ip' op' out')
             \<and> fst (Decompress_loop inb ip_end op_end ip' op' out') \<le> op_end))
         \<and> (\<forall>q. q < op' \<or> op_end + 8 \<le> q \<longrightarrow>
              snd (Decompress_loop inb ip_end op_end ip' op' out') q = out' q)"
        using "1.prems" a by (intro "1.IH" [OF True Next]) auto
      have eq: "Decompress_loop inb ip_end op_end ip op out
                = Decompress_loop inb ip_end op_end ip' op' out'"
        using True Next by (subst Decompress_loop.simps) simp
      show ?thesis unfolding eq using IH a by auto
    next
      case (Stop ip' op' out')
      hence a: "op \<le> op'" "op' \<le> op_end" "\<And>q. q < op \<or> op_end + 8 \<le> q \<Longrightarrow> out' q = out q"
        using s by (auto simp: step_safe_def)
      have eq: "Decompress_loop inb ip_end op_end ip op out
                = (if ip' = ip_end then op' else - 1, out')"
        using True Stop by (subst Decompress_loop.simps) simp
      show ?thesis unfolding eq using a "1.prems" by auto
    next
      case (Ret r out')
      hence a: "r = - 1" "\<And>q. q < op \<or> op_end + 8 \<le> q \<Longrightarrow> out' q = out q"
        using s by (auto simp: step_safe_def)
      have eq: "Decompress_loop inb ip_end op_end ip op out = (r, out')"
        using True Ret by (subst Decompress_loop.simps) simp
      show ?thesis unfolding eq using a by auto
    qed
  qed
qed


lemma literal_phase_cong:
  assumes agree: "\<And>q. 0 \<le> q \<Longrightarrow> q < ip_end + 8 \<Longrightarrow> inb' q = inb q"
      and ip: "0 \<le> ip" "ip \<le> ip_end"
  shows "literal_phase inb' ip_end op_end tag ip op out
         = literal_phase inb ip_end op_end tag ip op out"
proof -
  have d: "DecodeMod inb' ip = DecodeMod inb ip"
    using agree ip by (intro DecodeMod_cong) auto
  obtain x ip' where dx: "DecodeMod inb ip = (x, ip')" by (cases "DecodeMod inb ip")
  have ip': "ip \<le> ip'" using dx by (rule DecodeMod_advances)
  have w: "WildCopy (\<lambda>_. inb') out op ip1 (sint run) = WildCopy (\<lambda>_. inb) out op ip1 (sint run)"
    if "0 \<le> ip1" "uint run \<le> ip_end - ip1" for ip1 and run :: U32
  proof (rule WildCopy_cong)
    fix q assume q: "ip1 \<le> q" "q < ip1 + max 8 (sint run + 7)"
    have "sint run \<le> uint run" by (rule sint_le_uint_U32)
    hence "q < ip_end + 8" using q that uint_ge_0 [of run] by linarith
    thus "inb' q = inb q" using q that by (intro agree) auto
  qed
  show ?thesis
    using ip ip' w [of ip] w [of ip']
    by (auto simp: literal_phase_def Let_def d dx)
qed

lemma literal_phase_Next_bound:
  "literal_phase inb ip_end op_end tag ip op out = Next ip' op' out' \<Longrightarrow> ip \<le> ip_end \<Longrightarrow>
   ip' \<le> ip_end"
  by (auto simp: literal_phase_def Let_def split: if_splits prod.splits)

lemma UnalignedLoad16_cong:
  "m p = m' p \<Longrightarrow> m (p + 1) = m' (p + 1) \<Longrightarrow> UnalignedLoad16 m p = UnalignedLoad16 m' p"
  by (simp add: UnalignedLoad16_def)

lemma match_phase_cong:
  assumes agree: "\<And>q. 0 \<le> q \<Longrightarrow> q < ip_end + 8 \<Longrightarrow> inb' q = inb q"
      and ip: "0 \<le> ip" "ip \<le> ip_end"
  shows "match_phase inb' op_end tag ip op out = match_phase inb op_end tag ip op out"
proof -
  have d: "DecodeMod inb' ip = DecodeMod inb ip"
    using agree ip by (intro DecodeMod_cong) auto
  obtain x ip' where dx: "DecodeMod inb ip = (x, ip')" by (cases "DecodeMod inb ip")
  have ip': "ip \<le> ip'" "ip' \<le> ip + 5"
    using dx by (rule DecodeMod_advances, rule DecodeMod_bound)
  have l: "UnalignedLoad16 inb' ip1 = UnalignedLoad16 inb ip1" if "ip \<le> ip1" "ip1 \<le> ip + 5" for ip1
    using that ip by (intro UnalignedLoad16_cong agree) auto
  show ?thesis
    using l [of ip] l [of ip'] ip'
    by (simp add: match_phase_def Let_def d dx)
qed

lemma Decompress_body_cong:
  assumes agree: "\<And>q. 0 \<le> q \<Longrightarrow> q < ip_end + 8 \<Longrightarrow> inb' q = inb q"
      and ip: "0 \<le> ip" "ip < ip_end"
  shows "Decompress_body inb' ip_end op_end ip op out = Decompress_body inb ip_end op_end ip op out"
proof -
  let ?tag = "ucast (inb ip) :: U32"
  have t: "inb' ip = inb ip" using ip by (intro agree) auto
  have l: "literal_phase inb' ip_end op_end ?tag (ip + 1) op out
           = literal_phase inb ip_end op_end ?tag (ip + 1) op out"
    using ip by (intro literal_phase_cong agree) auto
  have m: "match_phase inb' op_end ?tag ip1 op1 out1 = match_phase inb op_end ?tag ip1 op1 out1"
    if "literal_phase inb ip_end op_end ?tag (ip + 1) op out = Next ip1 op1 out1"
    for ip1 op1 out1
  proof -
    have "ip + 1 \<le> ip1" using that by (rule literal_phase_advances)
    moreover have "ip1 \<le> ip_end" using that ip by (intro literal_phase_Next_bound [OF that]) simp
    ultimately show ?thesis using ip by (intro match_phase_cong agree) auto
  qed
  show ?thesis
  proof (cases "literal_phase inb ip_end op_end ?tag (ip + 1) op out")
    case (Next ip1 op1 out1)
    thus ?thesis using m [OF Next] by (simp add: Decompress_body_def t l)
  next
    case (Stop ip1 op1 out1)
    thus ?thesis by (simp add: Decompress_body_def t l)
  next
    case (Ret r out1)
    thus ?thesis by (simp add: Decompress_body_def t l)
  qed
qed

lemma Decompress_loop_cong:
  "(\<And>q. 0 \<le> q \<Longrightarrow> q < ip_end + 8 \<Longrightarrow> inb' q = inb q) \<Longrightarrow> 0 \<le> ip \<Longrightarrow>
   Decompress_loop inb' ip_end op_end ip op out = Decompress_loop inb ip_end op_end ip op out"
proof (induction inb ip_end op_end ip op out rule: Decompress_loop.induct)
  case (1 inb ip_end op_end ip op out)
  show ?case
  proof (cases "ip < ip_end")
    case False
    thus ?thesis by (subst (1 2) Decompress_loop.simps) simp
  next
    case True
    have b: "Decompress_body inb' ip_end op_end ip op out
             = Decompress_body inb ip_end op_end ip op out"
      using "1.prems" True by (intro Decompress_body_cong) auto
    show ?thesis
    proof (cases "Decompress_body inb ip_end op_end ip op out")
      case (Next ip1 op1 out1)
      have "ip < ip1" using Next by (rule Decompress_body_advances)
      hence "Decompress_loop inb' ip_end op_end ip1 op1 out1
             = Decompress_loop inb ip_end op_end ip1 op1 out1"
        using "1.prems" by (intro "1.IH" [OF True Next]) auto
      thus ?thesis using True Next b by (subst (1 2) Decompress_loop.simps) simp
    next
      case (Stop ip1 op1 out1)
      thus ?thesis using True b by (subst (1 2) Decompress_loop.simps) simp
    next
      case (Ret r out1)
      thus ?thesis using True b by (subst (1 2) Decompress_loop.simps) simp
    qed
  qed
qed

subsection \<open>The tables of the encoder\<close>

lemma and_WINDOW_MASK: "s AND WINDOW_MASK = s mod WINDOW_SIZE"
proof -
  have m: "(131071 :: int) = mask 17" by (simp add: mask_eq_exp_minus_1)
  have "s AND mask 17 = s mod 2 ^ 17"
    by (simp only: take_bit_eq_mask [symmetric] take_bit_eq_mod)
  thus ?thesis by (simp add: ulz_consts m)
qed

lemma window_slot_distinct:
  assumes "s < p" "p - s < WINDOW_SIZE"
  shows "s AND WINDOW_MASK \<noteq> p AND WINDOW_MASK"
proof
  assume "s AND WINDOW_MASK = p AND WINDOW_MASK"
  hence "s mod WINDOW_SIZE = p mod WINDOW_SIZE" by (simp add: and_WINDOW_MASK)
  hence "WINDOW_SIZE dvd p - s" by (metis mod_eq_dvd_iff)
  hence "WINDOW_SIZE \<le> p - s" using assms(1) by (intro zdvd_imp_le) simp_all
  thus False using assms(2) by simp
qed

lemma Hash32_range: "0 \<le> uint (Hash32 m p) \<and> uint (Hash32 m p) < HASH_SIZE"
proof -
  let ?w = "UnalignedLoad32 m p * 0x9E3779B9"
  have "uint (drop_bit 14 ?w) = uint ?w div 2 ^ 14"
    by (simp add: drop_bit_eq_div uint_div_distrib)
  moreover have "uint ?w < 2 ^ 32" using uint_bounded [of ?w] by simp
  ultimately have "uint (drop_bit 14 ?w) < 2 ^ 18"
    by simp
  thus ?thesis by (simp add: Hash32_def ulz_consts)
qed



definition table_inv :: "cstate \<Rightarrow> bool" where
  "table_inv st =
     (0 \<le> c_p st
      \<and> (\<forall>h. 0 \<le> h \<and> h < HASH_SIZE \<longrightarrow> NIL \<le> Head st h \<and> Head st h < c_p st)
      \<and> (\<forall>s. max 0 (c_p st - WINDOW_SIZE) \<le> s \<and> s < c_p st \<longrightarrow>
             NIL \<le> Tail st (s AND WINDOW_MASK) \<and> Tail st (s AND WINDOW_MASK) < s))"

definition tables_eq :: "cstate \<Rightarrow> cstate \<Rightarrow> bool" where
  "tables_eq st st' = (Head st = Head st' \<and> Tail st = Tail st' \<and> c_p st = c_p st')"

lemma tables_eq_refl [simp]: "tables_eq st st"
  by (simp add: tables_eq_def)

lemma tables_eq_table_inv: "tables_eq st st' \<Longrightarrow> table_inv st = table_inv st'"
  by (simp add: tables_eq_def table_inv_def)

lemma tables_eq_hash_inv: "tables_eq st st' \<Longrightarrow> hash_inv inb st = hash_inv inb st'"
  by (simp add: tables_eq_def hash_inv_def)

lemma tables_eq_hash_insert:
  "tables_eq st st' \<Longrightarrow> tables_eq (hash_insert inb st) (hash_insert inb st')"
  by (simp add: tables_eq_def hash_insert_def Let_def)

lemma tables_eq_insert_loop:
  "tables_eq st st' \<Longrightarrow> tables_eq (insert_loop inb n st) (insert_loop inb n st')"
  by (induction n arbitrary: st st') (simp_all add: tables_eq_hash_insert)

lemma table_inv_init: "table_inv (Compress_init c out)"
  by (simp add: table_inv_def Compress_init_def ulz_consts)

lemma hash_inv_init: "hash_inv inb (Compress_init c out)"
  by (auto simp: hash_inv_def Compress_init_def ulz_consts)

lemma hash_insert_Head:
  "Head (hash_insert inb st) = (Head st)(uint (Hash32 inb (c_p st)) := c_p st)"
  by (simp add: hash_insert_def Let_def)

lemma hash_insert_Tail:
  "Tail (hash_insert inb st)
   = (Tail st)(c_p st AND WINDOW_MASK := Head st (uint (Hash32 inb (c_p st))))"
  by (simp add: hash_insert_def Let_def)

lemma table_inv_hash_insert:
  assumes "table_inv st"
  shows "table_inv (hash_insert inb st)"
proof -
  let ?p = "c_p st"
  let ?h = "uint (Hash32 inb ?p)"
  have p0: "0 \<le> ?p" using assms by (simp add: table_inv_def)
  have hr: "0 \<le> ?h" "?h < HASH_SIZE" using Hash32_range [of inb ?p] by simp_all
  have hd: "NIL \<le> Head st h \<and> Head st h < ?p" if "0 \<le> h" "h < HASH_SIZE" for h
    using assms that by (simp add: table_inv_def)
  have tl: "NIL \<le> Tail st (s AND WINDOW_MASK) \<and> Tail st (s AND WINDOW_MASK) < s"
    if "max 0 (?p - WINDOW_SIZE) \<le> s" "s < ?p" for s
    using assms that by (simp add: table_inv_def)
  have np: "NIL \<le> ?p" using p0 by (simp add: NIL_def)
  have A: "NIL \<le> Head (hash_insert inb st) h \<and> Head (hash_insert inb st) h < ?p + 1"
    if "0 \<le> h" "h < HASH_SIZE" for h
  proof (cases "h = ?h")
    case True
    thus ?thesis using np by (simp add: hash_insert_Head)
  next
    case False
    thus ?thesis using hd [OF that] by (simp add: hash_insert_Head)
  qed
  have B: "NIL \<le> Tail (hash_insert inb st) (s AND WINDOW_MASK)
                 \<and> Tail (hash_insert inb st) (s AND WINDOW_MASK) < s"
    if s: "max 0 (?p + 1 - WINDOW_SIZE) \<le> s" "s < ?p + 1" for s
  proof (cases "s = ?p")
    case True
    thus ?thesis using hd [OF hr] by (simp add: hash_insert_Tail)
  next
    case False
    hence lt: "s < ?p" using s(2) by simp
    have "?p + 1 - WINDOW_SIZE \<le> s" using s(1) by simp
    hence "?p - s < WINDOW_SIZE" by simp
    hence ne: "s AND WINDOW_MASK \<noteq> ?p AND WINDOW_MASK"
      using lt by (intro window_slot_distinct)
    have "0 \<le> s" using s(1) by simp
    moreover have "?p - WINDOW_SIZE \<le> s" using \<open>?p + 1 - WINDOW_SIZE \<le> s\<close> by simp
    ultimately have "max 0 (?p - WINDOW_SIZE) \<le> s" by simp
    thus ?thesis using tl [of s] lt ne by (simp add: hash_insert_Tail)
  qed
  show ?thesis
    unfolding table_inv_def using p0 A B by (simp add: hash_insert_p)
qed

lemma chain_reach_le:
  assumes dec: "\<And>s. limit < s \<Longrightarrow> s < p \<Longrightarrow> tail (s AND WINDOW_MASK) < s"
  shows "chain_reach tail limit s q \<Longrightarrow> s < p \<Longrightarrow> q \<le> s"
proof (induction rule: chain_reach.induct)
  case (chain_here s)
  thus ?case by simp
next
  case (chain_next s q)
  have "tail (s AND WINDOW_MASK) < s" using chain_next.hyps(1) chain_next.prems by (rule dec)
  thus ?case using chain_next.IH chain_next.prems by simp
qed

lemma chain_reach_update:
  assumes dec: "\<And>s. limit < s \<Longrightarrow> s < p \<Longrightarrow> tail (s AND WINDOW_MASK) < s"
      and same: "\<And>s. limit' < s \<Longrightarrow> s < p \<Longrightarrow> tail' (s AND WINDOW_MASK) = tail (s AND WINDOW_MASK)"
      and lim: "limit \<le> limit'"
  shows "chain_reach tail limit s q \<Longrightarrow> s < p \<Longrightarrow> limit' < q \<Longrightarrow>
         chain_reach tail' limit' s q"
proof (induction rule: chain_reach.induct)
  case (chain_here s)
  from chain_here.prems(2) show ?case by (rule chain_reach.chain_here)
next
  case (chain_next s q)
  have lt: "tail (s AND WINDOW_MASK) < s"
    using chain_next.hyps(1) chain_next.prems(1) by (rule dec)
  have tp: "tail (s AND WINDOW_MASK) < p" using lt chain_next.prems(1) by linarith
  have "q \<le> tail (s AND WINDOW_MASK)"
    using dec chain_next.hyps(2) tp by (rule chain_reach_le)
  hence ls: "limit' < s" using chain_next.prems(2) lt by linarith
  have "chain_reach tail' limit' (tail (s AND WINDOW_MASK)) q"
    using tp chain_next.prems(2) by (rule chain_next.IH)
  hence "chain_reach tail' limit' (tail' (s AND WINDOW_MASK)) q"
    by (simp only: same [OF ls chain_next.prems(1)])
  with ls show ?case by (rule chain_reach.chain_next)
qed

lemma hash_inv_hash_insert:
  assumes t: "table_inv st" and h: "hash_inv inb st"
  shows "hash_inv inb (hash_insert inb st)"
proof -
  let ?p = "c_p st"
  let ?h = "uint (Hash32 inb ?p)"
  let ?lim = "max (?p - WINDOW_SIZE) NIL"
  let ?lim' = "max (?p + 1 - WINDOW_SIZE) NIL"
  let ?tl' = "(Tail st)(?p AND WINDOW_MASK := Head st ?h)"
  have p0: "0 \<le> ?p" using t by (simp add: table_inv_def)
  have hd: "Head st (uint (Hash32 inb q)) < ?p" for q
    using t Hash32_range [of inb q] by (simp add: table_inv_def)
  have dec: "Tail st (s AND WINDOW_MASK) < s" if "?lim < s" "s < ?p" for s
  proof -
    have "max 0 (?p - WINDOW_SIZE) \<le> s" using that(1) by (simp add: NIL_def)
    thus ?thesis using t that(2) by (simp add: table_inv_def)
  qed
  have same: "?tl' (s AND WINDOW_MASK) = Tail st (s AND WINDOW_MASK)" if "?lim' < s" "s < ?p" for s
  proof -
    have "?p - s < WINDOW_SIZE" using that(1) by simp
    hence "s AND WINDOW_MASK \<noteq> ?p AND WINDOW_MASK"
      using that(2) by (intro window_slot_distinct)
    thus ?thesis by simp
  qed
  have ll: "?lim \<le> ?lim'" by simp
  have old: "chain_reach ?tl' ?lim' (Head st (uint (Hash32 inb q))) q"
    if q: "max 0 (?p + 1 - WINDOW_SIZE + 1) \<le> q" "q \<le> ?p - 1" for q
  proof -
    have "max 0 (?p - WINDOW_SIZE + 1) \<le> q" using q(1) by simp
    hence r: "chain_reach (Tail st) ?lim (Head st (uint (Hash32 inb q))) q"
      using h q(2) by (simp add: hash_inv_def)
    have lq: "?lim' < q" using q(1) by (simp add: NIL_def)
    show ?thesis
      using dec same ll r hd [of q] lq
      by (rule chain_reach_update [where tail = "Tail st" and limit = ?lim and p = ?p])
  qed
  have plim: "?lim' < ?p" using p0 by (simp add: ulz_consts)
  have new: "chain_reach ?tl' ?lim' (((Head st)(?h := ?p)) (uint (Hash32 inb q))) q"
    if q: "max 0 (?p + 1 - WINDOW_SIZE + 1) \<le> q" "q \<le> ?p + 1 - 1" for q
  proof (cases "q = ?p")
    case True
    have "chain_reach ?tl' ?lim' ?p ?p" using plim by (rule chain_here)
    thus ?thesis using True by simp
  next
    case False
    hence q': "q \<le> ?p - 1" using q(2) by simp
    show ?thesis
    proof (cases "uint (Hash32 inb q) = ?h")
      case True
      have "chain_reach ?tl' ?lim' (Head st ?h) q"
        using old [OF q(1) q'] True by simp
      hence "chain_reach ?tl' ?lim' (?tl' (?p AND WINDOW_MASK)) q" by simp
      with plim have "chain_reach ?tl' ?lim' ?p q" by (rule chain_next)
      thus ?thesis using True by simp
    next
      case False
      thus ?thesis using old [OF q(1) q'] by simp
    qed
  qed
  show ?thesis
    unfolding hash_inv_def hash_insert_Head hash_insert_Tail hash_insert_p
    using new by blast
qed

definition chain_inv :: "mem \<Rightarrow> cstate \<Rightarrow> bool" where
  "chain_inv inb st = (table_inv st \<and> hash_inv inb st)"

lemma chain_inv_hash_insert: "chain_inv inb st \<Longrightarrow> chain_inv inb (hash_insert inb st)"
  by (simp add: chain_inv_def table_inv_hash_insert hash_inv_hash_insert)

lemma chain_inv_insert_loop: "chain_inv inb st \<Longrightarrow> chain_inv inb (insert_loop inb n st)"
  by (induction n arbitrary: st) (simp_all add: chain_inv_hash_insert)

lemma tables_eq_chain_inv: "tables_eq st st' \<Longrightarrow> chain_inv inb st = chain_inv inb st'"
  by (simp add: chain_inv_def tables_eq_table_inv tables_eq_hash_inv)

lemma emit_run_tables [simp]:
  "Head (emit_run inb tmp st) = Head st" "Tail (emit_run inb tmp st) = Tail st"
  by (simp_all add: emit_run_def Let_def split: prod.splits)

lemma emit_match_unfold:
  assumes "tmp = (drop_bit 12 dist AND 16) + min (best_len - MIN_MATCH) 15"
      and "st1 = (if c_run st \<noteq> 0
                 then (emit_run inb tmp st)\<lparr>c_run := 0\<rparr>
                 else st\<lparr>c_out := (c_out st)(c_op st := word_of_int tmp), c_op := c_op st + 1\<rparr>)"
      and "(if best_len - MIN_MATCH \<ge> 15
            then EncodeMod (c_out st1) (c_op st1) (word_of_int (best_len - MIN_MATCH - 15))
            else (c_out st1, c_op st1)) = (out2, op2)"
  shows "emit_match inb best_len dist st
         = insert_loop inb (nat best_len)
             (st1\<lparr>c_out := UnalignedStore16 out2 op2 (word_of_int dist), c_op := op2 + 2\<rparr>)"
  unfolding emit_match_def Let_def assms(1) [symmetric] assms(2) [symmetric] assms(3)
  by (simp only: prod.case)

lemma emit_match_tables:
  "tables_eq (emit_match inb best_len dist st) (insert_loop inb (nat best_len) st)"
proof -
  define tmp where "tmp = (drop_bit 12 dist AND 16) + min (best_len - MIN_MATCH) 15"
  define st1 where "st1 = (if c_run st \<noteq> 0
                 then (emit_run inb tmp st)\<lparr>c_run := 0\<rparr>
                 else st\<lparr>c_out := (c_out st)(c_op st := word_of_int tmp), c_op := c_op st + 1\<rparr>)"
  obtain out2 op2 where e: "(if best_len - MIN_MATCH \<ge> 15
            then EncodeMod (c_out st1) (c_op st1) (word_of_int (best_len - MIN_MATCH - 15))
            else (c_out st1, c_op st1)) = (out2, op2)"
    by (cases "(if best_len - MIN_MATCH \<ge> 15
            then EncodeMod (c_out st1) (c_op st1) (word_of_int (best_len - MIN_MATCH - 15))
            else (c_out st1, c_op st1))")
  have "tables_eq st1 st" by (simp add: st1_def tables_eq_def)
  hence "tables_eq (st1\<lparr>c_out := UnalignedStore16 out2 op2 (word_of_int dist), c_op := op2 + 2\<rparr>) st"
    by (simp add: tables_eq_def)
  thus ?thesis
    unfolding emit_match_unfold [OF tmp_def st1_def e] by (rule tables_eq_insert_loop)
qed

lemma chain_inv_Compress_step:
  assumes "chain_inv inb st"
  shows "chain_inv inb (Compress_step inb in_len level st)"
proof -
  obtain best_len dist where f: "find_match inb in_len level st = (best_len, dist)"
    by (cases "find_match inb in_len level st")
  show ?thesis
  proof (cases "MIN_MATCH \<le> best_len")
    case True
    have "chain_inv inb (insert_loop inb (nat best_len) st)"
      using assms by (rule chain_inv_insert_loop)
    hence "chain_inv inb (emit_match inb best_len dist st)"
      using emit_match_tables [of inb best_len dist st] by (simp add: tables_eq_chain_inv)
    thus ?thesis using True f by (simp add: Compress_step_def)
  next
    case False
    have "tables_eq (st\<lparr>c_run := c_run st + 1\<rparr>) st" by (simp add: tables_eq_def)
    hence "chain_inv inb (st\<lparr>c_run := c_run st + 1\<rparr>)"
      using assms by (simp add: tables_eq_chain_inv)
    thus ?thesis using False f by (simp add: Compress_step_def chain_inv_hash_insert)
  qed
qed

lemma Compress_reach_chain_inv:
  "Compress_reach c inb in_len out level st \<Longrightarrow> chain_inv inb st"
proof (induction rule: Compress_reach.induct)
  case reach_init
  show ?case by (simp add: chain_inv_def table_inv_init hash_inv_init)
next
  case (reach_step st)
  thus ?case by (simp add: chain_inv_Compress_step)
qed

subsection \<open>The match finder\<close>

text \<open>\<open>is_match inb p dist len\<close>: the \<open>len\<close> bytes at \<open>p\<close> repeat the bytes \<open>dist\<close> positions
  earlier.\<close>

definition is_match :: "mem \<Rightarrow> int \<Rightarrow> int \<Rightarrow> int \<Rightarrow> bool" where
  "is_match inb p dist len = (\<forall>k. 0 \<le> k \<and> k < len \<longrightarrow> inb (p - dist + k) = inb (p + k))"

lemma match_extend_spec:
  "len \<le> lim \<Longrightarrow>
   len \<le> match_extend inb s j lim len \<and> match_extend inb s j lim len \<le> lim
   \<and> (\<forall>k. len \<le> k \<and> k < match_extend inb s j lim len \<longrightarrow> inb (s + k) = inb (j + k))"
proof (induction inb s j lim len rule: match_extend.induct)
  case (1 inb s j lim len)
  show ?case
  proof (cases "len < lim \<and> inb (s + len) = inb (j + len)")
    case True
    hence eq: "match_extend inb s j lim len = match_extend inb s j lim (len + 1)"
      by (subst match_extend.simps) simp
    have IH: "len + 1 \<le> match_extend inb s j lim (len + 1)
              \<and> match_extend inb s j lim (len + 1) \<le> lim
              \<and> (\<forall>k. len + 1 \<le> k \<and> k < match_extend inb s j lim (len + 1) \<longrightarrow>
                     inb (s + k) = inb (j + k))"
      using True by (intro "1.IH") auto
    have "inb (s + k) = inb (j + k)" if "len \<le> k" "k < match_extend inb s j lim (len + 1)" for k
    proof (cases "k = len")
      case True
      thus ?thesis using \<open>len < lim \<and> inb (s + len) = inb (j + len)\<close> by simp
    next
      case False
      thus ?thesis using that IH by simp
    qed
    thus ?thesis unfolding eq using IH by auto
  next
    case False
    hence "match_extend inb s j lim len = len" by (subst match_extend.simps) auto
    thus ?thesis using "1.prems" by auto
  qed
qed

text \<open>The loop stops at the first byte that differs.\<close>

lemma match_extend_stop:
  "len \<le> n \<Longrightarrow> n < lim \<Longrightarrow> (\<forall>k. len \<le> k \<and> k < n \<longrightarrow> inb (s + k) = inb (j + k)) \<Longrightarrow>
   inb (s + n) \<noteq> inb (j + n) \<Longrightarrow> match_extend inb s j lim len = n"
proof (induction inb s j lim len rule: match_extend.induct)
  case (1 inb s j lim len)
  show ?case
  proof (cases "len = n")
    case True
    thus ?thesis using "1.prems" by (subst match_extend.simps) simp
  next
    case False
    hence lt: "len < n" using "1.prems"(1) by simp
    hence c: "len < lim \<and> inb (s + len) = inb (j + len)" using "1.prems" by simp
    have "match_extend inb s j lim (len + 1) = n"
      using c lt "1.prems" by (intro "1.IH") auto
    thus ?thesis using c by (subst match_extend.simps) simp
  qed
qed

lemma match_extend_full:
  "len \<le> lim \<Longrightarrow> (\<forall>k. len \<le> k \<and> k < lim \<longrightarrow> inb (s + k) = inb (j + k)) \<Longrightarrow>
   match_extend inb s j lim len = lim"
proof (induction inb s j lim len rule: match_extend.induct)
  case (1 inb s j lim len)
  show ?case
  proof (cases "len = lim")
    case True
    thus ?thesis by (subst match_extend.simps) simp
  next
    case False
    hence c: "len < lim \<and> inb (s + len) = inb (j + len)" using "1.prems" by simp
    have "match_extend inb s j lim (len + 1) = lim"
      using c "1.prems" by (intro "1.IH") auto
    thus ?thesis using c by (subst match_extend.simps) simp
  qed
qed

text \<open>What the search has in hand: nothing yet, or a verified match inside the window.\<close>

definition found_ok :: "mem \<Rightarrow> int \<Rightarrow> int \<Rightarrow> int \<Rightarrow> int \<Rightarrow> bool" where
  "found_ok inb p max_match best_len dist =
     ((best_len = MIN_MATCH - 1 \<and> dist = 0)
      \<or> (MIN_MATCH \<le> best_len \<and> best_len \<le> max_match \<and> 1 \<le> dist \<and> dist \<le> p
         \<and> dist < WINDOW_SIZE \<and> is_match inb p dist best_len))"

lemma find_cand_sound:
  assumes ok: "found_ok inb p max_match best_len dist"
      and mm: "MIN_MATCH \<le> max_match"
      and s: "p - WINDOW_SIZE < s" "NIL < s" "s < p"
  shows "found_ok inb p max_match (fst (find_cand inb p max_match s best_len dist))
           (fst (snd (find_cand inb p max_match s best_len dist)))"
proof (cases "inb (s + best_len) = inb (p + best_len)
              \<and> UnalignedLoad32 inb s = UnalignedLoad32 inb p
              \<and> match_extend inb s p max_match MIN_MATCH > best_len")
  case False
  hence "fst (find_cand inb p max_match s best_len dist) = best_len"
        "fst (snd (find_cand inb p max_match s best_len dist)) = dist"
    by (auto simp: find_cand_def Let_def)
  thus ?thesis using ok by simp
next
  case True
  let ?len = "match_extend inb s p max_match MIN_MATCH"
  have fc: "fst (find_cand inb p max_match s best_len dist) = ?len"
           "fst (snd (find_cand inb p max_match s best_len dist)) = p - s"
    using True by (auto simp: find_cand_def Let_def)
  have sp: "MIN_MATCH \<le> ?len \<and> ?len \<le> max_match
            \<and> (\<forall>k. MIN_MATCH \<le> k \<and> k < ?len \<longrightarrow> inb (s + k) = inb (p + k))"
    using mm by (rule match_extend_spec)
  have four: "inb s = inb p" "inb (s + 1) = inb (p + 1)" "inb (s + 2) = inb (p + 2)"
             "inb (s + 3) = inb (p + 3)"
    using True by (simp_all add: load32_eq_iff)
  have "inb (s + k) = inb (p + k)" if "0 \<le> k" "k < ?len" for k
  proof (cases "MIN_MATCH \<le> k")
    case True
    thus ?thesis using sp that by simp
  next
    case False
    hence "k = 0 \<or> k = 1 \<or> k = 2 \<or> k = 3" using that by (auto simp: MIN_MATCH_def)
    thus ?thesis using four by auto
  qed
  hence "is_match inb p (p - s) ?len" by (simp add: is_match_def)
  moreover have "1 \<le> p - s" "p - s \<le> p" "p - s < WINDOW_SIZE"
    using s by (simp_all add: NIL_def)
  ultimately show ?thesis using sp by (simp add: fc found_ok_def)
qed

lemma find_walk_sound:
  assumes dec: "\<And>s. limit < s \<Longrightarrow> s < p \<Longrightarrow> tail (s AND WINDOW_MASK) < s"
      and mm: "MIN_MATCH \<le> max_match"
      and lim: "p - WINDOW_SIZE \<le> limit" "NIL \<le> limit"
  shows "found_ok inb p max_match best_len dist \<Longrightarrow> s < p \<Longrightarrow>
         found_ok inb p max_match
           (fst (find_walk inb tail p max_match limit chain_len s best_len dist))
           (snd (find_walk inb tail p max_match limit chain_len s best_len dist))"
proof (induction chain_len arbitrary: s best_len dist)
  case 0
  thus ?case by simp
next
  case (Suc n)
  show ?case
  proof (cases "limit < s")
    case False
    thus ?thesis using Suc.prems by simp
  next
    case True
    let ?r = "find_cand inb p max_match s best_len dist"
    have "p - WINDOW_SIZE < s" "NIL < s" using True lim by linarith+
    hence ok: "found_ok inb p max_match (fst ?r) (fst (snd ?r))"
      using Suc.prems mm by (intro find_cand_sound)
    show ?thesis
    proof (cases "snd (snd ?r) \<or> n = 0")
      case brk: True
      have "find_walk inb tail p max_match limit (Suc n) s best_len dist = (fst ?r, fst (snd ?r))"
        using True brk by (simp add: Let_def)
      thus ?thesis using ok by simp
    next
      case False
      have "tail (s AND WINDOW_MASK) < s" using True Suc.prems(2) by (rule dec)
      hence "tail (s AND WINDOW_MASK) < p" using Suc.prems(2) by linarith
      with ok have "found_ok inb p max_match
           (fst (find_walk inb tail p max_match limit n (tail (s AND WINDOW_MASK)) (fst ?r) (fst (snd ?r))))
           (snd (find_walk inb tail p max_match limit n (tail (s AND WINDOW_MASK)) (fst ?r) (fst (snd ?r))))"
        by (rule Suc.IH)
      moreover have "find_walk inb tail p max_match limit (Suc n) s best_len dist
            = find_walk inb tail p max_match limit n (tail (s AND WINDOW_MASK)) (fst ?r) (fst (snd ?r))"
        using True False by (simp add: Let_def)
      ultimately show ?thesis by simp
    qed
  qed
qed

lemma look_walk_cases:
  "look_walk inb tail j target_len limit chain_len s best_len = 0
   \<or> look_walk inb tail j target_len limit chain_len s best_len = best_len"
  by (induction chain_len arbitrary: s) auto

lemma lookahead_cases:
  "lookahead inb head tail p mc i best_len = 0 \<or> lookahead inb head tail p mc i best_len = best_len"
proof (induction inb head tail p mc i best_len rule: lookahead.induct)
  case (1 inb head tail p mc i best_len)
  show ?case
  proof (cases "i \<le> 2 \<and> best_len \<noteq> 0")
    case False
    thus ?thesis by (subst (1 2) lookahead.simps) auto
  next
    case True
    let ?b = "look_walk inb tail (p + i) (best_len + i) (max (p + i - WINDOW_SIZE) NIL) mc
                (head (uint (Hash32 inb (p + i)))) best_len"
    have eq: "lookahead inb head tail p mc i best_len = lookahead inb head tail p mc (i + 1) ?b"
      using True by (subst lookahead.simps) (simp add: Let_def)
    have IH: "lookahead inb head tail p mc (i + 1) ?b = 0
              \<or> lookahead inb head tail p mc (i + 1) ?b = ?b"
      using True by (intro "1.IH") auto
    have "?b = 0 \<or> ?b = best_len" by (rule look_walk_cases)
    thus ?thesis unfolding eq using IH by auto
  qed
qed

lemma first_walk_sound:
  assumes t: "table_inv st" and mm: "MIN_MATCH \<le> in_len - c_p st"
  shows "found_ok inb (c_p st) (in_len - c_p st) (fst (first_walk inb in_len level st))
           (snd (first_walk inb in_len level st))"
proof -
  let ?p = "c_p st"
  let ?lim = "max (?p - WINDOW_SIZE) NIL"
  have dec: "Tail st (s AND WINDOW_MASK) < s" if "?lim < s" "s < ?p" for s
  proof -
    have "max 0 (?p - WINDOW_SIZE) \<le> s" using that(1) by (simp add: NIL_def)
    thus ?thesis using t that(2) by (simp add: table_inv_def)
  qed
  have hd: "Head st (uint (Hash32 inb ?p)) < ?p"
    using t Hash32_range [of inb ?p] by (simp add: table_inv_def)
  have init: "found_ok inb ?p (in_len - ?p) (MIN_MATCH - 1) 0" by (simp add: found_ok_def)
  have l1: "?p - WINDOW_SIZE \<le> ?lim" and l2: "NIL \<le> ?lim" by simp_all
  have "found_ok inb ?p (in_len - ?p)
          (fst (find_walk inb (Tail st) ?p (in_len - ?p) ?lim (max_chain level)
                  (Head st (uint (Hash32 inb ?p))) (MIN_MATCH - 1) 0))
          (snd (find_walk inb (Tail st) ?p (in_len - ?p) ?lim (max_chain level)
                  (Head st (uint (Hash32 inb ?p))) (MIN_MATCH - 1) 0))"
    using dec mm l1 l2 init hd
    by (rule find_walk_sound [where tail = "Tail st" and limit = ?lim])
  thus ?thesis by (simp add: first_walk_def Let_def)
qed

lemma find_match_cases:
  assumes mm: "MIN_MATCH \<le> in_len - c_p st"
      and w: "first_walk inb in_len level st = (b0, d0)"
      and f: "find_match inb in_len level st = (best_len, dist)"
  shows "dist = d0 \<and> (best_len = 0 \<or> best_len = b0)"
proof -
  let ?b1 = "suppress_short b0 (c_run st)"
  let ?b2 = "if level = 9 \<and> ?b1 \<ge> MIN_MATCH \<and> ?b1 < in_len - c_p st
             then lookahead inb (Head st) (Tail st) (c_p st) (max_chain level) 1 ?b1 else ?b1"
  have fm: "best_len = ?b2" "dist = d0"
    using f mm w by (simp_all add: find_match_def Let_def)
  have "?b1 = 0 \<or> ?b1 = b0" by (simp add: suppress_short_def)
  moreover have "?b2 = 0 \<or> ?b2 = ?b1"
    using lookahead_cases [of inb "Head st" "Tail st" "c_p st" "max_chain level" 1 ?b1] by auto
  ultimately show ?thesis using fm by auto
qed

lemma find_match_sound:
  assumes t: "table_inv st"
      and f: "find_match inb in_len level st = (best_len, dist)"
      and b: "MIN_MATCH \<le> best_len"
  shows "best_len \<le> in_len - c_p st \<and> 1 \<le> dist \<and> dist \<le> c_p st \<and> dist < WINDOW_SIZE
         \<and> is_match inb (c_p st) dist best_len"
proof (cases "MIN_MATCH \<le> in_len - c_p st")
  case False
  thus ?thesis using f b by (simp add: find_match_def Let_def)
next
  case True
  obtain b0 d0 where w: "first_walk inb in_len level st = (b0, d0)"
    by (cases "first_walk inb in_len level st")
  have ok: "found_ok inb (c_p st) (in_len - c_p st) b0 d0"
    using first_walk_sound [OF t True, of inb level] w by simp
  have "dist = d0 \<and> (best_len = 0 \<or> best_len = b0)"
    using True w f by (rule find_match_cases)
  hence "best_len = b0" "dist = d0" using b by (auto simp: MIN_MATCH_def)
  thus ?thesis using ok b by (auto simp: found_ok_def MIN_MATCH_def)
qed






lemma hash_insert_c_run [simp]: "c_run (hash_insert inb st) = c_run st"
  by (simp add: hash_insert_def Let_def)

lemma insert_loop_c_run [simp]: "c_run (insert_loop inb n st) = c_run st"
  by (induction n arbitrary: st) simp_all

lemma hash_insert_c_op [simp]: "c_op (hash_insert inb st) = c_op st"
  by (simp add: hash_insert_def Let_def)

lemma insert_loop_c_op [simp]: "c_op (insert_loop inb n st) = c_op st"
  by (induction n arbitrary: st) simp_all


lemma table_inv_run: "table_inv (st\<lparr>c_run := r\<rparr>) = table_inv st"
  by (simp add: table_inv_def)




subsection \<open>The walk finds a match that is there\<close>








subsection \<open>The lookahead finds a longer match that is there\<close>




lemma Compress_step_literal:
  assumes "find_match inb in_len level st = (best_len, dist)" "best_len < MIN_MATCH"
  shows "Compress_step inb in_len level st = hash_insert inb (st\<lparr>c_run := c_run st + 1\<rparr>)"
  using assms by (simp add: Compress_step_def)

lemma Compress_step_match:
  assumes "find_match inb in_len level st = (best_len, dist)" "MIN_MATCH \<le> best_len"
  shows "Compress_step inb in_len level st = emit_match inb best_len dist st"
  using assms by (simp add: Compress_step_def)


subsection \<open>Two inputs\<close>









subsection \<open>The encoder and the decoder in step\<close>

lemma and_exp_int: "(x :: int) AND 2 ^ n = push_bit n (take_bit 1 (drop_bit n x))"
  by (rule bit_eqI) (auto simp: bit_simps dest: bit_iff_odd_drop_bit [THEN iffD1] intro: bit_iff_odd_drop_bit [THEN iffD2])

lemma and16_int: "(x :: int) AND 16 = 16 * ((x div 16) mod 2)"
  using and_exp_int [of x 4]
  by (simp add: push_bit_eq_mult take_bit_eq_mod drop_bit_eq_div)

lemma and16_U32: "uint ((w :: U32) AND 16) = 16 * ((uint w div 16) mod 2)"
  by (simp add: uint_and and16_int)

lemma and15_U32: "uint ((w :: U32) AND 15) = uint w mod 16"
proof -
  have "w AND 15 = take_bit 4 w" by (simp add: take_bit_eq_mask mask_eq_exp_minus_1)
  thus ?thesis by (simp add: take_bit_eq_mod uint_mod_distrib)
qed

lemma drop5_U32: "uint (drop_bit 5 (w :: U32)) = uint w div 32"
  by (simp add: drop_bit_eq_div uint_div_distrib)

lemma push12_U32: "uint w < 1048576 \<Longrightarrow> uint (push_bit 12 (w :: U32)) = 4096 * uint w"
  by (simp add: push_bit_eq_mult uint_mult_lem [THEN iffD1])


definition agree :: "mem \<Rightarrow> mem \<Rightarrow> int \<Rightarrow> int \<Rightarrow> bool" where
  "agree a b lo hi = (\<forall>q. lo \<le> q \<and> q < hi \<longrightarrow> a q = b q)"

lemma agreeD: "agree a b lo hi \<Longrightarrow> lo \<le> q \<Longrightarrow> q < hi \<Longrightarrow> a q = b q"
  by (simp add: agree_def)

lemma agree_sub: "agree a b lo hi \<Longrightarrow> lo \<le> lo' \<Longrightarrow> hi' \<le> hi \<Longrightarrow> agree a b lo' hi'"
  by (simp add: agree_def)

text \<open>The tag byte\<close>

lemma uint_tag:
  assumes "0 \<le> v" "v < 256"
  shows "uint (ucast (word_of_int v :: U8) :: U32) = v"
proof -
  have "uint (word_of_int v :: U8) = v"
    using assms by (simp add: uint_word_of_int_eq take_bit_int_eq_self)
  thus ?thesis by (simp add: uint_up_ucast is_up)
qed

lemma tag_fields:
  fixes rn tmp :: int
  assumes "0 \<le> rn" "rn \<le> 7" "0 \<le> tmp" "tmp < 32"
  defines "tag \<equiv> (ucast (word_of_int (32 * rn + tmp) :: U8) :: U32)"
  shows "uint tag = 32 * rn + tmp"
    and "32 \<le> tag \<longleftrightarrow> 1 \<le> rn"
    and "uint (drop_bit 5 tag) = rn"
    and "uint (tag AND 15) = tmp mod 16"
    and "uint (tag AND 16) = 16 * (tmp div 16)"
proof -
  show u: "uint tag = 32 * rn + tmp"
    unfolding tag_def using assms(1-4) by (intro uint_tag) linarith+
  show "32 \<le> tag \<longleftrightarrow> 1 \<le> rn"
    using assms(1-4) by (simp add: word_le_def u) linarith
  have "(32 * rn + tmp) div 32 = rn" using assms(3,4) by simp
  thus "uint (drop_bit 5 tag) = rn" by (simp add: drop5_U32 u)
  have "(32 * rn + tmp) mod 16 = tmp mod 16"
  proof -
    have "32 * rn + tmp = tmp + 16 * (2 * rn)" by simp
    thus ?thesis by (simp only: mod_mult_self2)
  qed
  thus "uint (tag AND 15) = tmp mod 16" by (simp add: and15_U32 u)
  have "(32 * rn + tmp) div 16 = tmp div 16 + 2 * rn"
  proof -
    have "32 * rn + tmp = tmp + 16 * (2 * rn)" by simp
    thus ?thesis by (simp only: div_mult_self2)
  qed
  moreover have "tmp div 16 = 0 \<or> tmp div 16 = 1"
  proof (cases "tmp < 16")
    case True
    thus ?thesis using assms(3) by simp
  next
    case False
    have "(tmp - 16 + 16 * 1) div 16 = 1 + (tmp - 16) div 16"
      by (rule div_mult_self2) simp
    hence "tmp div 16 = (tmp - 16) div 16 + 1" by simp
    moreover have "(tmp - 16) div 16 = 0" using False assms(4) by simp
    ultimately show ?thesis by simp
  qed
  ultimately have "((32 * rn + tmp) div 16) mod 2 = tmp div 16" by auto
  thus "uint (tag AND 16) = 16 * (tmp div 16)" by (simp add: and16_U32 u)
qed


lemma word_of_int_uint_eq: "uint (w :: U32) = k \<Longrightarrow> w = word_of_int k"
  by auto

lemma uint_word_of_int_small: "0 \<le> k \<Longrightarrow> k < 2147483648 \<Longrightarrow> uint (word_of_int k :: U32) = k"
  by (rule uint_word_of_int_32) simp_all

lemma sint_word_of_int_small: "0 \<le> k \<Longrightarrow> k < 2147483648 \<Longrightarrow> sint (word_of_int k :: U32) = k"
  using sint_eq_uint_U32 [of "word_of_int k"] by (simp add: uint_word_of_int_small)

lemma unat_word_of_int_small: "0 \<le> k \<Longrightarrow> k < 2147483648 \<Longrightarrow> unat (word_of_int k :: U32) = nat k"
  using uint_word_of_int_small [of k] by (simp add: unat_eq_nat_uint)

definition run_head :: "mem \<Rightarrow> int \<Rightarrow> int \<Rightarrow> int \<Rightarrow> (int \<Rightarrow> U8) \<Rightarrow> int \<Rightarrow> bool" where
  "run_head cb ip run tmp lit ipa =
     (cb ip = word_of_int (32 * min run 7 + tmp)
      \<and> (if 7 \<le> run then DecodeMod cb (ip + 1) = (word_of_int (run - 7), ipa) else ipa = ip + 1)
      \<and> (\<forall>k. 0 \<le> k \<and> k < run \<longrightarrow> cb (ipa + k) = lit k))"

lemma literal_phase_token:
  assumes rh: "run_head cb ip run tmp lit ipa"
      and r: "0 \<le> run" "run < 2147483648" and t: "0 \<le> tmp" "tmp < 32"
  shows "literal_phase cb ip_end op_end (ucast (cb ip)) (ip + 1) op out =
          (if run = 0 then Next (ip + 1) op out
           else if op_end - op < run \<or> ip_end - ipa < run then Ret (- 1) out
           else if ip_end \<le> ipa + run
                then Stop (ipa + run) (op + run) (WildCopy (\<lambda>_. cb) out op ipa run)
                else Next (ipa + run) (op + run) (WildCopy (\<lambda>_. cb) out op ipa run))"
proof -
  let ?rn = "min run 7"
  let ?tag = "ucast (cb ip) :: U32"
  have tg: "?tag = ucast (word_of_int (32 * ?rn + tmp) :: U8)"
    using rh by (simp add: run_head_def)
  have rn: "0 \<le> ?rn" "?rn \<le> 7" using r by simp_all
  have f1: "32 \<le> ?tag \<longleftrightarrow> 1 \<le> ?rn"
    unfolding tg using rn t by (rule tag_fields(2))
  have f2: "uint (drop_bit 5 ?tag) = ?rn"
    unfolding tg using rn t by (rule tag_fields(3))
  hence f3: "drop_bit 5 ?tag = word_of_int ?rn" by (rule word_of_int_uint_eq)
  show ?thesis
  proof (cases "run = 0")
    case True
    hence "\<not> 32 \<le> ?tag" using f1 by simp
    thus ?thesis using True by (simp add: literal_phase_def)
  next
    case False
    hence r1: "1 \<le> run" using r by simp
    hence ge: "32 \<le> ?tag" using f1 by simp
    have "\<exists>w :: U32. uint w = run \<and> sint w = run
            \<and> (if drop_bit 5 ?tag = 7
                 then (let (x, ip') = DecodeMod cb (ip + 1) in (drop_bit 5 ?tag + x, ip'))
                 else (drop_bit 5 ?tag, ip + 1)) = (w, ipa)"
    proof (cases "7 \<le> run")
      case True
      hence d: "DecodeMod cb (ip + 1) = (word_of_int (run - 7), ipa)"
        using rh by (simp add: run_head_def)
      have rn7: "?rn = 7" using True by simp
      have "7 + word_of_int (run - 7) = (word_of_int run :: U32)" by simp
      thus ?thesis using d r
        by (simp add: f3 rn7 uint_word_of_int_small sint_word_of_int_small)
    next
      case False
      hence rr: "?rn = run" by simp
      have "ipa = ip + 1" using rh False by (simp add: run_head_def)
      moreover have "(word_of_int run :: U32) \<noteq> 7"
      proof
        assume "(word_of_int run :: U32) = 7"
        hence "uint (word_of_int run :: U32) = 7" by simp
        thus False using False r by (simp add: uint_word_of_int_small)
      qed
      ultimately show ?thesis using r
        by (simp add: f3 rr uint_word_of_int_small sint_word_of_int_small)
    qed
    then obtain w :: U32 where w: "uint w = run" "sint w = run"
      "(if drop_bit 5 ?tag = 7
        then (let (x, ip') = DecodeMod cb (ip + 1) in (drop_bit 5 ?tag + x, ip'))
        else (drop_bit 5 ?tag, ip + 1)) = (w, ipa)"
      by blast
    show ?thesis
      using ge False by (simp add: literal_phase_def w Let_def)
  qed
qed


lemma match_phase_token:
  fixes rn dh best_len :: int
  assumes tg: "cb ip = word_of_int (32 * rn + (16 * dh + min (best_len - 4) 15))"
      and rn: "0 \<le> rn" "rn \<le> 7" and dh: "0 \<le> dh" "dh \<le> 1"
      and bl: "4 \<le> best_len" "best_len < 2147483648"
      and ln: "if 15 \<le> best_len - 4
               then DecodeMod cb ipb = (word_of_int (best_len - 19), ipc) else ipc = ipb"
  defines "d \<equiv> (word_of_int (65536 * dh) :: U32) + ucast (UnalignedLoad16 cb ipc)"
  shows "match_phase cb op_end (ucast (cb ip)) ipb op out =
          (if op_end - op < best_len then Ret (- 1) out
           else if op < uint d then Ret (- 1) out
           else Next (ipc + 2) (op + best_len)
                  (if 4 \<le> d then WildCopy (\<lambda>m. m) out op (op - uint d) best_len
                   else byte_copy out op (op - uint d) (nat best_len)))"
proof -
  let ?ln = "min (best_len - 4) 15"
  let ?tmp = "16 * dh + ?ln"
  let ?tag = "ucast (cb ip) :: U32"
  have tmp: "0 \<le> ?tmp" "?tmp < 32" using dh bl by auto
  have tgu: "?tag = ucast (word_of_int (32 * rn + ?tmp) :: U8)" using tg by simp
  have lnr: "0 \<le> ?ln" "?ln < 16" using bl by auto
  have "?tmp mod 16 = ?ln"
  proof -
    have "(?ln + 16 * dh) mod 16 = ?ln mod 16" by (rule mod_mult_self2)
    thus ?thesis using lnr by (simp add: add.commute)
  qed
  moreover have "uint (?tag AND 15) = ?tmp mod 16"
    unfolding tgu using rn tmp by (rule tag_fields(4))
  ultimately have a15: "?tag AND 15 = word_of_int ?ln"
    by (intro word_of_int_uint_eq) simp
  have "?tmp div 16 = dh"
  proof -
    have "(?ln + 16 * dh) div 16 = dh + ?ln div 16" by (rule div_mult_self2) simp
    thus ?thesis using lnr by (simp add: add.commute)
  qed
  moreover have "uint (?tag AND 16) = 16 * (?tmp div 16)"
    unfolding tgu using rn tmp by (rule tag_fields(5))
  ultimately have a16: "?tag AND 16 = word_of_int (16 * dh)"
    by (intro word_of_int_uint_eq) simp
  have p12: "push_bit 12 (?tag AND 16) = word_of_int (65536 * dh)"
    by (simp add: a16 push_bit_eq_mult)
  have len0: "(?tag AND 15) + word_of_int MIN_MATCH = (word_of_int (?ln + 4) :: U32)"
    by (simp add: a15 MIN_MATCH_def)
  have c19: "(word_of_int (?ln + 4) :: U32) = 15 + word_of_int MIN_MATCH \<longleftrightarrow> 15 \<le> best_len - 4"
  proof -
    have "uint (word_of_int (?ln + 4) :: U32) = ?ln + 4"
      using lnr by (intro uint_word_of_int_small) simp_all
    moreover have "uint (15 + word_of_int MIN_MATCH :: U32) = 19" by (simp add: MIN_MATCH_def)
    ultimately have "(word_of_int (?ln + 4) :: U32) = 15 + word_of_int MIN_MATCH \<longleftrightarrow> ?ln + 4 = 19"
      by (metis word_uint_eq_iff)
    thus ?thesis by auto
  qed
  have sel: "(if (?tag AND 15) + word_of_int MIN_MATCH = 15 + word_of_int MIN_MATCH
              then (case DecodeMod cb ipb of
                      (x, ip') \<Rightarrow> ((?tag AND 15) + word_of_int MIN_MATCH + x, ip'))
              else ((?tag AND 15) + word_of_int MIN_MATCH, ipb))
             = (word_of_int best_len :: U32, ipc)"
  proof (cases "15 \<le> best_len - 4")
    case True
    hence "DecodeMod cb ipb = (word_of_int (best_len - 19), ipc)" using ln by simp
    moreover have "?ln = 15" using True by simp
    ultimately show ?thesis using True unfolding len0 c19 by simp
  next
    case False
    hence "ipc = ipb" using ln by simp
    moreover have "?ln = best_len - 4" using False by simp
    ultimately show ?thesis using False unfolding len0 c19 by simp
  qed
  have u: "uint (word_of_int best_len :: U32) = best_len"
          "sint (word_of_int best_len :: U32) = best_len"
          "unat (word_of_int best_len :: U32) = nat best_len"
    using bl by (simp_all add: uint_word_of_int_small sint_word_of_int_small
                  unat_word_of_int_small)
  show ?thesis
    unfolding match_phase_def Let_def sel prod.case u p12 d_def [symmetric]
    by simp
qed

lemma periodic_unique':
  fixes a b :: mem
  assumes below: "\<And>q. d - dist \<le> q \<Longrightarrow> q < d \<Longrightarrow> a q = b q"
      and ra: "\<And>k. 0 \<le> k \<Longrightarrow> k < n \<Longrightarrow> a (d + k) = a (d - dist + k)"
      and rb: "\<And>k. 0 \<le> k \<Longrightarrow> k < n \<Longrightarrow> b (d + k) = b (d - dist + k)"
      and dist: "0 < dist"
  shows "0 \<le> k \<Longrightarrow> k < n \<Longrightarrow> a (d + k) = b (d + k)"
proof (induction "nat k" arbitrary: k rule: less_induct)
  case less
  show ?case
  proof (cases "k < dist")
    case True
    thus ?thesis using ra [of k] rb [of k] below [of "d - dist + k"] less.prems by simp
  next
    case False
    hence "a (d + (k - dist)) = b (d + (k - dist))"
      using less.prems dist by (intro less.hyps) auto
    thus ?thesis using ra [of k] rb [of k] less.prems
      by (simp add: algebra_simps)
  qed
qed

lemma match_copy_correct:
  fixes d :: U32
  assumes ag: "agree out inb 0 op"
      and m: "is_match inb op (uint d) len"
      and dd: "1 \<le> uint d" "uint d \<le> op"
  defines "out' \<equiv> (if 4 \<le> d then WildCopy (\<lambda>m. m) out op (op - uint d) len
                     else byte_copy out op (op - uint d) (nat len))"
  shows "agree out' inb 0 (op + len)"
proof -
  have fr: "out' q = out q" if "q < op" for q
    using that by (simp add: out'_def WildCopy_frame byte_copy_frame)
  have rec: "out' (op + k) = out' (op - uint d + k)" if "0 \<le> k" "k < len" for k
  proof (cases "4 \<le> d")
    case True
    hence "4 \<le> uint d" by (simp add: word_le_def)
    thus ?thesis using that True by (simp add: out'_def) (intro WildCopy_self, auto)
  next
    case False
    thus ?thesis using that dd by (simp add: out'_def) (intro byte_copy_self, auto)
  qed
  have rb: "inb (op + k) = inb (op - uint d + k)" if "0 \<le> k" "k < len" for k
    using m that by (simp add: is_match_def)
  have below: "out' q = inb q" if "op - uint d \<le> q" "q < op" for q
    using that fr [of q] agreeD [OF ag, of q] dd by simp
  have dpos: "0 < uint d" using dd by simp
  have "out' (op + k) = inb (op + k)" if "0 \<le> k" "k < len" for k
    using below rec rb dpos that
    by (rule periodic_unique' [where a = out' and b = inb and d = op and dist = "uint d" and n = len])
  hence "out' q = inb q" if "op \<le> q" "q < op + len" for q
    using that by (metis add_diff_cancel_left' diff_ge_0_iff_ge add_less_cancel_left add.commute diff_add_cancel)
  moreover have "out' q = inb q" if "0 \<le> q" "q < op" for q
    using that fr [of q] agreeD [OF ag, of q] by simp
  ultimately show ?thesis unfolding agree_def by (metis not_le)
qed

lemma EncodeMod_spec:
  assumes "EncodeMod m p x = (m', p')"
  shows "p < p'" and "p' \<le> p + 5" and "\<And>q. q < p \<or> p' \<le> q \<Longrightarrow> m' q = m q"
    and "\<And>cb. agree cb m' p p' \<Longrightarrow> DecodeMod cb p = (x, p')"
proof -
  have ux: "unat x < 2 ^ (32 - 7 * 0)" using unsigned_less [of x] by simp
  have j: "(0 :: nat) \<le> 4" by simp
  have g: "p < p' \<and> p' \<le> p + 5 - int 0
           \<and> DecodeMod_loop cb p 0 (7 * 0) = (0 + push_bit (7 * 0) x, p')
           \<and> (\<forall>q. q < p \<or> p' \<le> q \<longrightarrow> m' q = m q)"
    if "\<And>q. p \<le> q \<Longrightarrow> q < p' \<Longrightarrow> cb q = m' q" for cb
    by (rule EncodeMod_DecodeMod_loop [where m'' = cb and j = 0 and ?x0.0 = 0, OF assms ux j that])
  have g': "p < p' \<and> p' \<le> p + 5 \<and> (\<forall>q. q < p \<or> p' \<le> q \<longrightarrow> m' q = m q)"
    using g [of m'] by simp
  show "p < p'" "p' \<le> p + 5" using g' by simp_all
  show "m' q = m q" if "q < p \<or> p' \<le> q" for q using g' that by blast
  show "DecodeMod cb p = (x, p')" if "agree cb m' p p'" for cb
  proof -
    have "\<And>q. p \<le> q \<Longrightarrow> q < p' \<Longrightarrow> cb q = m' q" using that by (simp add: agree_def)
    from g [OF this] show ?thesis by (simp add: DecodeMod_def)
  qed
qed

lemma load16_store16:
  assumes "agree cb (UnalignedStore16 m p x) p (p + 2)"
  shows "UnalignedLoad16 cb p = x"
proof -
  have b0: "cb p = ucast x" and b1: "cb (p + 1) = ucast (drop_bit 8 x)"
    using agreeD [OF assms, of p] agreeD [OF assms, of "p + 1"]
    by (simp_all add: UnalignedStore16_def)
  have u0: "uint (ucast x :: U8) = uint x mod 256"
    by (simp add: unsigned_ucast_eq take_bit_eq_mod uint_mod_distrib)
  have "uint (drop_bit 8 x) = uint x div 256"
    by (simp add: drop_bit_eq_div uint_div_distrib)
  moreover have "uint x div 256 < 256" using uint_bounded [of x] by simp
  moreover have "0 \<le> uint x div 256" using uint_ge_0 [of x] by (simp add: pos_imp_zdiv_nonneg_iff)
  ultimately have u1: "uint (ucast (drop_bit 8 x) :: U8) = uint x div 256"
    by (simp add: unsigned_ucast_eq take_bit_eq_mod uint_mod_distrib)
  have "uint x mod 256 + 256 * (uint x div 256) = uint x" by simp
  thus ?thesis by (simp add: UnalignedLoad16_def b0 b1 u0 u1)
qed

lemma UnalignedStore16_frame: "q < p \<Longrightarrow> UnalignedStore16 m p x q = m q"
  by (simp add: UnalignedStore16_def)

lemma dist_fields:
  assumes "0 \<le> dist" "dist < 131072"
  shows "drop_bit 12 dist AND 16 = 16 * (dist div 65536)"
    and "0 \<le> dist div 65536" and "dist div 65536 \<le> 1"
    and "(word_of_int (65536 * (dist div 65536)) :: U32) + ucast (word_of_int dist :: U16)
         = word_of_int dist"
proof -
  have d1: "dist div 65536 < 2" using assms by simp
  show "0 \<le> dist div 65536" using assms by simp
  thus "dist div 65536 \<le> 1" using d1 by simp
  have "drop_bit 12 dist div 16 = dist div 65536"
    by (simp add: drop_bit_eq_div div_mult2_eq [symmetric])
  moreover have "(dist div 65536) mod 2 = dist div 65536" using d1 assms by simp
  ultimately show "drop_bit 12 dist AND 16 = 16 * (dist div 65536)"
    by (simp add: and16_int)
  have "uint (ucast (word_of_int dist :: U16) :: U32) = dist mod 65536"
    by (simp add: uint_up_ucast is_up uint_word_of_int)
  hence u: "(ucast (word_of_int dist :: U16) :: U32) = word_of_int (dist mod 65536)"
    by (rule word_of_int_uint_eq)
  have "(word_of_int (65536 * (dist div 65536)) :: U32) + word_of_int (dist mod 65536)
        = word_of_int (65536 * (dist div 65536) + dist mod 65536)"
    by (simp only: of_int_add)
  also have "65536 * (dist div 65536) + dist mod 65536 = dist" by simp
  finally show "(word_of_int (65536 * (dist div 65536)) :: U32) + ucast (word_of_int dist :: U16)
         = word_of_int dist"
    by (simp only: u)
qed

lemma emit_run_fields [simp]:
  "c_run (emit_run inb tmp st) = c_run st"
  by (simp add: emit_run_def Let_def split: prod.splits)

lemma emit_run_layout:
  assumes r: "0 < c_run st" "c_run st < 2147483648"
  shows "\<exists>ipa. c_op st + 1 \<le> ipa \<and> c_op (emit_run inb tmp st) = ipa + c_run st
          \<and> (\<forall>q. q < c_op st \<longrightarrow> c_out (emit_run inb tmp st) q = c_out st q)
          \<and> (\<forall>cb. agree cb (c_out (emit_run inb tmp st)) (c_op st) (ipa + c_run st) \<longrightarrow>
                 run_head cb (c_op st) (c_run st) tmp (\<lambda>k. inb (c_p st - c_run st + k)) ipa)"
proof (cases "7 \<le> c_run st")
  case True
  let ?run = "c_run st" and ?op = "c_op st"
  let ?m1 = "(c_out st)(?op := word_of_int (push_bit 5 7 + tmp))"
  obtain m2 ipa where e: "EncodeMod ?m1 (?op + 1) (word_of_int (?run - 7)) = (m2, ipa)"
    by (cases "EncodeMod ?m1 (?op + 1) (word_of_int (?run - 7))")
  let ?m3 = "WildCopy (\<lambda>_. inb) m2 ipa (c_p st - ?run) ?run"
  have out: "c_out (emit_run inb tmp st) = ?m3" and op: "c_op (emit_run inb tmp st) = ipa + ?run"
    using True e by (simp_all add: emit_run_def Let_def)
  note es = EncodeMod_spec [OF e]
  have fr: "?m3 q = c_out st q" if "q < ?op" for q
  proof -
    have "?m3 q = m2 q" using that es(1) by (intro WildCopy_frame) simp
    also have "\<dots> = ?m1 q" using that by (intro es(3)) simp
    finally show ?thesis using that by simp
  qed
  have rh: "run_head cb ?op ?run tmp (\<lambda>k. inb (c_p st - ?run + k)) ipa"
    if ag: "agree cb ?m3 ?op (ipa + ?run)" for cb
  proof -
    have "cb ?op = ?m3 ?op" using ag es(1) r by (intro agreeD [OF ag]) simp_all
    also have "\<dots> = m2 ?op" using es(1) by (intro WildCopy_frame) simp
    also have "\<dots> = ?m1 ?op" by (intro es(3)) simp
    finally have tagb: "cb ?op = word_of_int (32 * min ?run 7 + tmp)"
      using True by (simp add: push_bit_eq_mult)
    have "agree cb m2 (?op + 1) ipa"
      unfolding agree_def
    proof (intro allI impI)
      fix q assume q: "?op + 1 \<le> q \<and> q < ipa"
      hence "cb q = ?m3 q" using r by (intro agreeD [OF ag]) simp_all
      also have "\<dots> = m2 q" using q by (intro WildCopy_frame) simp
      finally show "cb q = m2 q" .
    qed
    hence dm: "DecodeMod cb (?op + 1) = (word_of_int (?run - 7), ipa)" by (rule es(4))
    have "cb (ipa + k) = inb (c_p st - ?run + k)" if "0 \<le> k" "k < ?run" for k
    proof -
      have "cb (ipa + k) = ?m3 (ipa + k)" using that es(1) by (intro agreeD [OF ag]) simp_all
      also have "\<dots> = inb (c_p st - ?run + k)" using that by (intro WildCopy_lit) simp_all
      finally show ?thesis .
    qed
    thus ?thesis using tagb dm True by (simp add: run_head_def)
  qed
  show ?thesis
    unfolding out op using es(1) fr rh by (intro exI [of _ ipa]) simp
next
  case False
  let ?run = "c_run st" and ?op = "c_op st"
  let ?m1 = "(c_out st)(?op := word_of_int (push_bit 5 ?run + tmp))"
  let ?m3 = "WildCopy (\<lambda>_. inb) ?m1 (?op + 1) (c_p st - ?run) ?run"
  have out: "c_out (emit_run inb tmp st) = ?m3" and op: "c_op (emit_run inb tmp st) = ?op + 1 + ?run"
    using False by (simp_all add: emit_run_def Let_def)
  have fr: "?m3 q = c_out st q" if "q < ?op" for q
  proof -
    have "?m3 q = ?m1 q" using that by (intro WildCopy_frame) simp
    thus ?thesis using that by simp
  qed
  have rh: "run_head cb ?op ?run tmp (\<lambda>k. inb (c_p st - ?run + k)) (?op + 1)"
    if ag: "agree cb ?m3 ?op (?op + 1 + ?run)" for cb
  proof -
    have "cb ?op = ?m3 ?op" using ag r by (intro agreeD [OF ag]) simp_all
    also have "\<dots> = ?m1 ?op" by (intro WildCopy_frame) simp
    finally have tagb: "cb ?op = word_of_int (32 * min ?run 7 + tmp)"
      using False by (simp add: push_bit_eq_mult)
    have "cb (?op + 1 + k) = inb (c_p st - ?run + k)" if "0 \<le> k" "k < ?run" for k
    proof -
      have "cb (?op + 1 + k) = ?m3 (?op + 1 + k)" using that by (intro agreeD [OF ag]) simp_all
      also have "\<dots> = inb (c_p st - ?run + k)" using that by (intro WildCopy_lit) simp_all
      finally show ?thesis .
    qed
    thus ?thesis using tagb False by (simp add: run_head_def)
  qed
  show ?thesis
    unfolding out op using fr rh by (intro exI [of _ "?op + 1"]) simp
qed

lemma hash_insert_c_out [simp]: "c_out (hash_insert inb st) = c_out st"
  by (simp add: hash_insert_def Let_def)

lemma insert_loop_c_out [simp]: "c_out (insert_loop inb n st) = c_out st"
  by (induction n arbitrary: st) simp_all

lemma run_head_zero:
  "cb ip = word_of_int tmp \<Longrightarrow> run_head cb ip 0 tmp lit (ip + 1)"
  by (auto simp: run_head_def)

lemma run_head_tag:
  "run_head cb ip run tmp lit ipa \<Longrightarrow> cb ip = word_of_int (32 * min run 7 + tmp)"
  by (simp add: run_head_def)

lemma run_head_lit:
  "run_head cb ip run tmp lit ipa \<Longrightarrow> 0 \<le> k \<Longrightarrow> k < run \<Longrightarrow> cb (ipa + k) = lit k"
  by (simp add: run_head_def)

text \<open>The first stage of a match token: tag, run length and literals.\<close>

lemma emit_head_layout:
  fixes st :: cstate and inb :: mem and tmp :: int
  assumes r: "0 \<le> c_run st" "c_run st < 2147483648"
  defines "st1 \<equiv> (if c_run st \<noteq> 0
                 then (emit_run inb tmp st)\<lparr>c_run := 0\<rparr>
                 else st\<lparr>c_out := (c_out st)(c_op st := word_of_int tmp), c_op := c_op st + 1\<rparr>)"
  shows "\<exists>ipa. c_op st + 1 \<le> ipa \<and> c_op st1 = ipa + c_run st
          \<and> (\<forall>q. q < c_op st \<longrightarrow> c_out st1 q = c_out st q)
          \<and> (\<forall>cb. agree cb (c_out st1) (c_op st) (ipa + c_run st) \<longrightarrow>
                 run_head cb (c_op st) (c_run st) tmp (\<lambda>k. inb (c_p st - c_run st + k)) ipa)"
proof (cases "c_run st = 0")
  case True
  have "run_head cb (c_op st) 0 tmp (\<lambda>k. inb (c_p st - c_run st + k)) (c_op st + 1)"
    if "agree cb (c_out st1) (c_op st) (c_op st + 1)" for cb
  proof -
    have "cb (c_op st) = c_out st1 (c_op st)" using that by (rule agreeD) simp_all
    hence "cb (c_op st) = word_of_int tmp" using True by (simp add: st1_def)
    thus ?thesis by (rule run_head_zero)
  qed
  thus ?thesis using True by (intro exI [of _ "c_op st + 1"]) (simp add: st1_def)
next
  case False
  hence pos: "0 < c_run st" using r by simp
  have s1: "c_op st1 = c_op (emit_run inb tmp st)" "c_out st1 = c_out (emit_run inb tmp st)"
    using False by (simp_all add: st1_def)
  show ?thesis unfolding s1 using pos r(2) by (rule emit_run_layout)
qed


lemma literal_copy_agree:
  fixes od :: mem
  assumes rh: "run_head cb ip run tmp (\<lambda>k. inb (op + k)) ipa"
  defines "od1 \<equiv> (if run = 0 then od else WildCopy (\<lambda>_. cb) od op ipa run)"
  shows "\<And>q. q < op \<Longrightarrow> od1 q = od q"
    and "\<And>k. 0 \<le> k \<Longrightarrow> k < run \<Longrightarrow> od1 (op + k) = inb (op + k)"
proof -
  show "od1 q = od q" if "q < op" for q
    using that by (simp add: od1_def WildCopy_frame)
  show "od1 (op + k) = inb (op + k)" if "0 \<le> k" "k < run" for k
  proof -
    have "WildCopy (\<lambda>_. cb) od op ipa run (op + k) = cb (ipa + k)"
      using that by (intro WildCopy_lit) simp_all
    also have "\<dots> = inb (op + k)" using rh that by (rule run_head_lit)
    finally show ?thesis using that by (simp add: od1_def)
  qed
qed

text \<open>The second stage of a match token: the rest of the length.\<close>

lemma emit_len_layout:
  fixes out1 :: mem and op1 best_len :: int
  assumes e: "(if best_len - MIN_MATCH \<ge> 15
               then EncodeMod out1 op1 (word_of_int (best_len - MIN_MATCH - 15))
               else (out1, op1)) = (out2, op2)"
  shows "op1 \<le> op2" and "\<And>q. q < op1 \<Longrightarrow> out2 q = out1 q"
    and "\<And>cb. agree cb out2 op1 op2 \<Longrightarrow>
           (if 15 \<le> best_len - 4
            then DecodeMod cb op1 = (word_of_int (best_len - 19), op2) else op2 = op1)"
proof -
  have all: "op1 \<le> op2 \<and> (\<forall>q. q < op1 \<longrightarrow> out2 q = out1 q)
        \<and> (\<forall>cb. agree cb out2 op1 op2 \<longrightarrow>
           (if 15 \<le> best_len - 4
            then DecodeMod cb op1 = (word_of_int (best_len - 19), op2) else op2 = op1))"
  proof (cases "15 \<le> best_len - 4")
    case True
    hence e': "EncodeMod out1 op1 (word_of_int (best_len - 19)) = (out2, op2)"
      using e by (simp add: MIN_MATCH_def)
    note es = EncodeMod_spec [OF e']
    have "out2 q = out1 q" if "q < op1" for q using that by (intro es(3)) simp
    thus ?thesis using True es(1) es(4) by auto
  next
    case False
    hence e': "out2 = out1" "op2 = op1" using e by (simp_all add: MIN_MATCH_def)
    thus ?thesis using False by simp
  qed
  show "op1 \<le> op2" using all by simp
  show "out2 q = out1 q" if "q < op1" for q using all that by simp
  show "if 15 \<le> best_len - 4
        then DecodeMod cb op1 = (word_of_int (best_len - 19), op2) else op2 = op1"
    if "agree cb out2 op1 op2" for cb
    using all that by blast
qed

lemma emit_match_decode:
  fixes st :: cstate and inb :: mem and best_len dist :: int
  assumes r: "0 \<le> c_run st" "c_run st < 2147483648"
      and bl: "4 \<le> best_len" "best_len < 2147483648"
      and d: "0 \<le> dist" "dist < 131072"
  defines "st' \<equiv> emit_match inb best_len dist st"
  shows "c_op st + 3 \<le> c_op st'"
    and "\<And>q. q < c_op st \<Longrightarrow> c_out st' q = c_out st q"
    and "c_run st' = 0"
    and "\<And>cb. agree cb (c_out st') (c_op st' - 2) (c_op st') \<Longrightarrow>
           UnalignedLoad16 cb (c_op st' - 2) = word_of_int dist"
    and "\<And>cb ip_end op_end od.
           agree cb (c_out st') (c_op st) (c_op st' - 2) \<Longrightarrow> c_op st' - 1 \<le> ip_end \<Longrightarrow>
           c_p st + best_len \<le> op_end \<Longrightarrow>
           \<exists>od1 dd. (\<forall>q. q < c_p st - c_run st \<longrightarrow> od1 q = od q)
             \<and> (\<forall>k. 0 \<le> k \<and> k < c_run st \<longrightarrow>
                    od1 (c_p st - c_run st + k) = inb (c_p st - c_run st + k))
             \<and> dd = (word_of_int (65536 * (dist div 65536)) :: U32)
                      + ucast (UnalignedLoad16 cb (c_op st' - 2))
             \<and> Decompress_body cb ip_end op_end (c_op st) (c_p st - c_run st) od =
                 (if c_p st < uint dd then Ret (- 1) od1
                  else Next (c_op st') (c_p st + best_len)
                         (if 4 \<le> dd
                          then WildCopy (\<lambda>m. m) od1 (c_p st) (c_p st - uint dd) best_len
                          else byte_copy od1 (c_p st) (c_p st - uint dd) (nat best_len)))"
proof -
  let ?run = "c_run st" and ?p = "c_p st" and ?ip = "c_op st"
  let ?dh = "dist div 65536"
  define tmp where "tmp = (drop_bit 12 dist AND 16) + min (best_len - MIN_MATCH) 15"
  define st1 where "st1 = (if c_run st \<noteq> 0
                 then (emit_run inb tmp st)\<lparr>c_run := 0\<rparr>
                 else st\<lparr>c_out := (c_out st)(c_op st := word_of_int tmp), c_op := c_op st + 1\<rparr>)"
  obtain out2 op2 where e: "(if best_len - MIN_MATCH \<ge> 15
            then EncodeMod (c_out st1) (c_op st1) (word_of_int (best_len - MIN_MATCH - 15))
            else (c_out st1, c_op st1)) = (out2, op2)"
    by (cases "(if best_len - MIN_MATCH \<ge> 15
            then EncodeMod (c_out st1) (c_op st1) (word_of_int (best_len - MIN_MATCH - 15))
            else (c_out st1, c_op st1))")
  have un: "st' = insert_loop inb (nat best_len)
             (st1\<lparr>c_out := UnalignedStore16 out2 op2 (word_of_int dist), c_op := op2 + 2\<rparr>)"
    unfolding st'_def by (rule emit_match_unfold [OF tmp_def st1_def e])
  have out': "c_out st' = UnalignedStore16 out2 op2 (word_of_int dist)"
    and op': "c_op st' = op2 + 2"
    by (simp_all add: un)
  have run1: "c_run st1 = 0" by (simp add: st1_def)
  show "c_run st' = 0" by (simp add: un run1)
  have tmp2: "tmp = 16 * ?dh + min (best_len - 4) 15"
    using dist_fields(1) [OF d] by (simp add: tmp_def MIN_MATCH_def)
  have dh: "0 \<le> ?dh" "?dh \<le> 1" using dist_fields(2,3) [OF d] by simp_all
  have tmpr: "0 \<le> tmp" "tmp < 32" using dh bl by (auto simp: tmp2)
  obtain ipa where ipa: "?ip + 1 \<le> ipa" "c_op st1 = ipa + ?run"
    and fr1: "\<And>q. q < ?ip \<Longrightarrow> c_out st1 q = c_out st q"
    and rh1: "\<And>cb. agree cb (c_out st1) ?ip (ipa + ?run) \<Longrightarrow>
                run_head cb ?ip ?run tmp (\<lambda>k. inb (?p - ?run + k)) ipa"
    using emit_head_layout [OF r, of inb tmp] unfolding st1_def [symmetric] by blast
  note ln = emit_len_layout [OF e]
  show "?ip + 3 \<le> c_op st'" using ipa ln(1) r(1) by (simp add: op')
  show "c_out st' q = c_out st q" if "q < ?ip" for q
  proof -
    have q1: "q < c_op st1" using that ipa r(1) by simp
    hence "q < op2" using ln(1) by simp
    hence "c_out st' q = out2 q" by (simp add: out' UnalignedStore16_frame)
    also have "\<dots> = c_out st1 q" using q1 by (rule ln(2))
    also have "\<dots> = c_out st q" using that by (rule fr1)
    finally show ?thesis .
  qed
  show "UnalignedLoad16 cb (c_op st' - 2) = word_of_int dist"
    if "agree cb (c_out st') (c_op st' - 2) (c_op st')" for cb
    using that by (simp add: out' op' load16_store16)
  show "\<exists>od1 dd. (\<forall>q. q < ?p - ?run \<longrightarrow> od1 q = od q)
             \<and> (\<forall>k. 0 \<le> k \<and> k < ?run \<longrightarrow> od1 (?p - ?run + k) = inb (?p - ?run + k))
             \<and> dd = (word_of_int (65536 * ?dh) :: U32) + ucast (UnalignedLoad16 cb (c_op st' - 2))
             \<and> Decompress_body cb ip_end op_end ?ip (?p - ?run) od =
                 (if ?p < uint dd then Ret (- 1) od1
                  else Next (c_op st') (?p + best_len)
                         (if 4 \<le> dd
                          then WildCopy (\<lambda>m. m) od1 ?p (?p - uint dd) best_len
                          else byte_copy od1 ?p (?p - uint dd) (nat best_len)))"
    if ag: "agree cb (c_out st') ?ip (c_op st' - 2)" and ie: "c_op st' - 1 \<le> ip_end"
      and oe: "?p + best_len \<le> op_end" for cb ip_end op_end od
  proof -
    have ag2: "agree cb out2 ?ip op2"
      unfolding agree_def
    proof (intro allI impI)
      fix q assume q: "?ip \<le> q \<and> q < op2"
      hence "cb q = c_out st' q" using ag by (intro agreeD [OF ag]) (simp_all add: op')
      thus "cb q = out2 q" using q by (simp add: out' UnalignedStore16_frame)
    qed
    have ag1: "agree cb (c_out st1) ?ip (ipa + ?run)"
      unfolding agree_def
    proof (intro allI impI)
      fix q assume q: "?ip \<le> q \<and> q < ipa + ?run"
      hence "cb q = out2 q" using ln(1) ipa(2) by (intro agreeD [OF ag2]) simp_all
      also have "\<dots> = c_out st1 q" using q ipa(2) by (intro ln(2)) simp
      finally show "cb q = c_out st1 q" .
    qed
    have rh: "run_head cb ?ip ?run tmp (\<lambda>k. inb (?p - ?run + k)) ipa" using ag1 by (rule rh1)
    define od1 where "od1 = (if ?run = 0 then od else WildCopy (\<lambda>_. cb) od (?p - ?run) ipa ?run)"
    note lc = literal_copy_agree [OF rh, where od = od, folded od1_def]
    have ipa0: "?run = 0 \<Longrightarrow> ipa = ?ip + 1" using ipa(2) by (simp add: st1_def)
    have lp: "literal_phase cb ip_end op_end (ucast (cb ?ip)) (?ip + 1) (?p - ?run) od
              = Next (c_op st1) ?p od1"
    proof -
      have c1: "\<not> (op_end - (?p - ?run) < ?run \<or> ip_end - ipa < ?run)"
        using oe ie bl ipa ln(1) by (simp add: op')
      have c2: "\<not> ip_end \<le> ipa + ?run" using ie ipa ln(1) by (simp add: op')
      show ?thesis
        unfolding literal_phase_token [OF rh r tmpr]
        using c1 c2 ipa0 by (simp add: od1_def ipa(2))
    qed
    have ag3: "agree cb out2 (c_op st1) op2"
      using ag2 by (rule agree_sub) (use ipa r in simp_all)
    have tg: "cb ?ip = word_of_int (32 * min ?run 7 + (16 * ?dh + min (best_len - 4) 15))"
      using run_head_tag [OF rh] by (simp add: tmp2)
    have rn: "0 \<le> min ?run 7" "min ?run 7 \<le> 7" using r by simp_all
    define dd where "dd = (word_of_int (65536 * ?dh) :: U32) + ucast (UnalignedLoad16 cb op2)"
    have mp: "match_phase cb op_end (ucast (cb ?ip)) (c_op st1) ?p od1 =
          (if op_end - ?p < best_len then Ret (- 1) od1
           else if ?p < uint dd then Ret (- 1) od1
           else Next (op2 + 2) (?p + best_len)
                  (if 4 \<le> dd then WildCopy (\<lambda>m. m) od1 ?p (?p - uint dd) best_len
                   else byte_copy od1 ?p (?p - uint dd) (nat best_len)))"
      unfolding dd_def using tg rn dh bl ln(3) [OF ag3] by (rule match_phase_token)
    have body: "Decompress_body cb ip_end op_end ?ip (?p - ?run) od =
                 (if ?p < uint dd then Ret (- 1) od1
                  else Next (c_op st') (?p + best_len)
                         (if 4 \<le> dd
                          then WildCopy (\<lambda>m. m) od1 ?p (?p - uint dd) best_len
                          else byte_copy od1 ?p (?p - uint dd) (nat best_len)))"
      using oe by (simp add: Decompress_body_def lp mp op')
    have "dd = (word_of_int (65536 * ?dh) :: U32) + ucast (UnalignedLoad16 cb (c_op st' - 2))"
      by (simp add: dd_def op')
    thus ?thesis using lc body by blast
  qed
qed

lemma emit_run_header:
  assumes r: "0 < c_run st" "c_run st < 2147483648"
  shows "\<exists>ipa. c_op st + 1 \<le> ipa \<and> c_op (emit_run inb tmp st) = ipa + c_run st
          \<and> (\<forall>q. q < c_op st \<longrightarrow> c_out (emit_run inb tmp st) q = c_out st q)
          \<and> (\<forall>cb. agree cb (c_out (emit_run inb tmp st)) (c_op st) ipa \<longrightarrow>
                 run_head cb (c_op st) (c_run st) tmp (\<lambda>k. cb (ipa + k)) ipa)"
proof (cases "7 \<le> c_run st")
  case True
  let ?run = "c_run st" and ?op = "c_op st"
  let ?m1 = "(c_out st)(?op := word_of_int (push_bit 5 7 + tmp))"
  obtain m2 ipa where e: "EncodeMod ?m1 (?op + 1) (word_of_int (?run - 7)) = (m2, ipa)"
    by (cases "EncodeMod ?m1 (?op + 1) (word_of_int (?run - 7))")
  let ?m3 = "WildCopy (\<lambda>_. inb) m2 ipa (c_p st - ?run) ?run"
  have out: "c_out (emit_run inb tmp st) = ?m3" and op: "c_op (emit_run inb tmp st) = ipa + ?run"
    using True e by (simp_all add: emit_run_def Let_def)
  note es = EncodeMod_spec [OF e]
  have fr: "?m3 q = c_out st q" if "q < ?op" for q
  proof -
    have "?m3 q = m2 q" using that es(1) by (intro WildCopy_frame) simp
    also have "\<dots> = ?m1 q" using that by (intro es(3)) simp
    finally show ?thesis using that by simp
  qed
  have rh: "run_head cb ?op ?run tmp (\<lambda>k. cb (ipa + k)) ipa"
    if ag: "agree cb ?m3 ?op ipa" for cb
  proof -
    have "cb ?op = ?m3 ?op" using ag es(1) by (intro agreeD [OF ag]) simp_all
    also have "\<dots> = m2 ?op" using es(1) by (intro WildCopy_frame) simp
    also have "\<dots> = ?m1 ?op" by (intro es(3)) simp
    finally have tagb: "cb ?op = word_of_int (32 * min ?run 7 + tmp)"
      using True by (simp add: push_bit_eq_mult)
    have "agree cb m2 (?op + 1) ipa"
      unfolding agree_def
    proof (intro allI impI)
      fix q assume q: "?op + 1 \<le> q \<and> q < ipa"
      hence "cb q = ?m3 q" by (intro agreeD [OF ag]) simp_all
      also have "\<dots> = m2 q" using q by (intro WildCopy_frame) simp
      finally show "cb q = m2 q" .
    qed
    hence dm: "DecodeMod cb (?op + 1) = (word_of_int (?run - 7), ipa)" by (rule es(4))
    show ?thesis using tagb dm True by (simp add: run_head_def)
  qed
  show ?thesis
    unfolding out op using es(1) fr rh by (intro exI [of _ ipa]) simp
next
  case False
  let ?run = "c_run st" and ?op = "c_op st"
  let ?m1 = "(c_out st)(?op := word_of_int (push_bit 5 ?run + tmp))"
  let ?m3 = "WildCopy (\<lambda>_. inb) ?m1 (?op + 1) (c_p st - ?run) ?run"
  have out: "c_out (emit_run inb tmp st) = ?m3" and op: "c_op (emit_run inb tmp st) = ?op + 1 + ?run"
    using False by (simp_all add: emit_run_def Let_def)
  have fr: "?m3 q = c_out st q" if "q < ?op" for q
  proof -
    have "?m3 q = ?m1 q" using that by (intro WildCopy_frame) simp
    thus ?thesis using that by simp
  qed
  have rh: "run_head cb ?op ?run tmp (\<lambda>k. cb (?op + 1 + k)) (?op + 1)"
    if ag: "agree cb ?m3 ?op (?op + 1)" for cb
  proof -
    have "cb ?op = ?m3 ?op" by (intro agreeD [OF ag]) simp_all
    also have "\<dots> = ?m1 ?op" by (intro WildCopy_frame) simp
    finally have tagb: "cb ?op = word_of_int (32 * min ?run 7 + tmp)"
      using False by (simp add: push_bit_eq_mult)
    show ?thesis using tagb False by (simp add: run_head_def)
  qed
  show ?thesis
    unfolding out op using fr rh by (intro exI [of _ "?op + 1"]) simp
qed

text \<open>The trailing literal run, read by the decoder: whole, and with its last byte cut.\<close>

lemma flush_decode:
  fixes st :: cstate and inb :: mem
  assumes r: "0 < c_run st" "c_run st < 2147483648"
  defines "st' \<equiv> emit_run inb 0 st"
  shows "c_op st + 2 \<le> c_op st'"
    and "\<And>q. q < c_op st \<Longrightarrow> c_out st' q = c_out st q"
    and "\<And>cb op_end od.
           agree cb (c_out st') (c_op st) (c_op st') \<Longrightarrow> c_p st \<le> op_end \<Longrightarrow>
           \<exists>od1. (\<forall>q. q < c_p st - c_run st \<longrightarrow> od1 q = od q)
             \<and> (\<forall>k. 0 \<le> k \<and> k < c_run st \<longrightarrow>
                    od1 (c_p st - c_run st + k) = inb (c_p st - c_run st + k))
             \<and> Decompress_body cb (c_op st') op_end (c_op st) (c_p st - c_run st) od
                 = Stop (c_op st') (c_p st) od1"
    and "\<And>cb ip_end op_end od.
           agree cb (c_out st') (c_op st) (c_op st' - 1) \<Longrightarrow> ip_end < c_op st' \<Longrightarrow>
           Decompress_body cb ip_end op_end (c_op st) (c_p st - c_run st) od = Ret (- 1) od"
proof -
  let ?run = "c_run st" and ?p = "c_p st" and ?ip = "c_op st"
  have t0: "(0 :: int) \<le> 0" "(0 :: int) < 32" by simp_all
  have r0: "0 \<le> ?run" using r by simp
  obtain ipa where ipa: "?ip + 1 \<le> ipa" "c_op st' = ipa + ?run"
    and fr1: "\<And>q. q < ?ip \<Longrightarrow> c_out st' q = c_out st q"
    and rh1: "\<And>cb. agree cb (c_out st') ?ip (ipa + ?run) \<Longrightarrow>
                run_head cb ?ip ?run 0 (\<lambda>k. inb (?p - ?run + k)) ipa"
    using emit_run_layout [OF r, of inb 0] unfolding st'_def [symmetric] by blast
  obtain ipa' where ipa': "c_op st' = ipa' + ?run"
    and rh2: "\<And>cb. agree cb (c_out st') ?ip ipa' \<Longrightarrow>
                run_head cb ?ip ?run 0 (\<lambda>k. cb (ipa' + k)) ipa'"
    using emit_run_header [OF r, of inb 0] unfolding st'_def [symmetric] by blast
  have same: "ipa' = ipa" using ipa(2) ipa' by simp
  show "?ip + 2 \<le> c_op st'" using ipa r by simp
  show "c_out st' q = c_out st q" if "q < ?ip" for q using that by (rule fr1)
  show "\<exists>od1. (\<forall>q. q < ?p - ?run \<longrightarrow> od1 q = od q)
             \<and> (\<forall>k. 0 \<le> k \<and> k < ?run \<longrightarrow> od1 (?p - ?run + k) = inb (?p - ?run + k))
             \<and> Decompress_body cb (c_op st') op_end ?ip (?p - ?run) od = Stop (c_op st') ?p od1"
    if ag: "agree cb (c_out st') ?ip (c_op st')" and oe: "?p \<le> op_end" for cb op_end od
  proof -
    have rh: "run_head cb ?ip ?run 0 (\<lambda>k. inb (?p - ?run + k)) ipa"
      using ag by (intro rh1) (simp add: ipa(2))
    define od1 where "od1 = (if ?run = 0 then od else WildCopy (\<lambda>_. cb) od (?p - ?run) ipa ?run)"
    note lc = literal_copy_agree [OF rh, where od = od, folded od1_def]
    have "literal_phase cb (c_op st') op_end (ucast (cb ?ip)) (?ip + 1) (?p - ?run) od
          = Stop (c_op st') ?p od1"
      unfolding literal_phase_token [OF rh r0 r(2) t0]
      using r(1) oe by (simp add: od1_def ipa(2))
    hence "Decompress_body cb (c_op st') op_end ?ip (?p - ?run) od = Stop (c_op st') ?p od1"
      by (simp add: Decompress_body_def)
    thus ?thesis using lc by blast
  qed
  show "Decompress_body cb ip_end op_end ?ip (?p - ?run) od = Ret (- 1) od"
    if ag: "agree cb (c_out st') ?ip (c_op st' - 1)" and ie: "ip_end < c_op st'"
    for cb ip_end op_end od
  proof -
    have "agree cb (c_out st') ?ip ipa'"
      using ag by (rule agree_sub) (use ipa' r in simp_all)
    hence rh: "run_head cb ?ip ?run 0 (\<lambda>k. cb (ipa' + k)) ipa'" by (rule rh2)
    have "literal_phase cb ip_end op_end (ucast (cb ?ip)) (?ip + 1) (?p - ?run) od = Ret (- 1) od"
      unfolding literal_phase_token [OF rh r0 r(2) t0]
      using r(1) ie by (simp add: ipa')
    thus ?thesis by (simp add: Decompress_body_def)
  qed
qed

text \<open>The state of the encoder between two iterations.\<close>

definition enc_inv :: "int \<Rightarrow> cstate \<Rightarrow> bool" where
  "enc_inv in_len st = (table_inv st \<and> 0 \<le> c_run st \<and> c_run st \<le> c_p st \<and> c_p st \<le> in_len)"

lemma table_inv_insert_loop: "table_inv st \<Longrightarrow> table_inv (insert_loop inb n st)"
  by (induction n arbitrary: st) (simp_all add: table_inv_hash_insert)

lemma enc_inv_init: "0 \<le> in_len \<Longrightarrow> enc_inv in_len (Compress_init c out)"
  by (simp add: enc_inv_def table_inv_init) (simp add: Compress_init_def)

lemma emit_match_c_run: "c_run (emit_match inb best_len dist st) = 0"
proof -
  define tmp where "tmp = (drop_bit 12 dist AND 16) + min (best_len - MIN_MATCH) 15"
  define st1 where "st1 = (if c_run st \<noteq> 0
                 then (emit_run inb tmp st)\<lparr>c_run := 0\<rparr>
                 else st\<lparr>c_out := (c_out st)(c_op st := word_of_int tmp), c_op := c_op st + 1\<rparr>)"
  obtain out2 op2 where e: "(if best_len - MIN_MATCH \<ge> 15
            then EncodeMod (c_out st1) (c_op st1) (word_of_int (best_len - MIN_MATCH - 15))
            else (c_out st1, c_op st1)) = (out2, op2)"
    by (cases "(if best_len - MIN_MATCH \<ge> 15
            then EncodeMod (c_out st1) (c_op st1) (word_of_int (best_len - MIN_MATCH - 15))
            else (c_out st1, c_op st1))")
  have "c_run st1 = 0" by (simp add: st1_def)
  thus ?thesis unfolding emit_match_unfold [OF tmp_def st1_def e] by simp
qed

text \<open>One iteration either counts a literal or emits a verified match.\<close>

lemma Compress_step_cases:
  assumes inv: "enc_inv in_len st"
  obtains (lit) "Compress_step inb in_len level st = hash_insert inb (st\<lparr>c_run := c_run st + 1\<rparr>)"
  | (mat) best_len dist where
      "Compress_step inb in_len level st = emit_match inb best_len dist st"
      "4 \<le> best_len" "best_len \<le> in_len - c_p st" "1 \<le> dist" "dist \<le> c_p st"
      "dist < 131072" "is_match inb (c_p st) dist best_len"
proof -
  obtain best_len dist where f: "find_match inb in_len level st = (best_len, dist)"
    by (cases "find_match inb in_len level st")
  show thesis
  proof (cases "MIN_MATCH \<le> best_len")
    case True
    have t: "table_inv st" using inv by (simp add: enc_inv_def)
    have s: "best_len \<le> in_len - c_p st \<and> 1 \<le> dist \<and> dist \<le> c_p st \<and> dist < WINDOW_SIZE
             \<and> is_match inb (c_p st) dist best_len"
      using t f True by (rule find_match_sound)
    have "Compress_step inb in_len level st = emit_match inb best_len dist st"
      using f True by (rule Compress_step_match)
    thus ?thesis using s True by (intro mat [of best_len dist]) (simp_all add: ulz_consts)
  next
    case False
    hence "best_len < MIN_MATCH" by simp
    with f have "Compress_step inb in_len level st
                 = hash_insert inb (st\<lparr>c_run := c_run st + 1\<rparr>)"
      by (rule Compress_step_literal)
    thus ?thesis by (rule lit)
  qed
qed

lemma enc_inv_literal:
  assumes "enc_inv in_len st" "c_p st < in_len"
  shows "enc_inv in_len (hash_insert inb (st\<lparr>c_run := c_run st + 1\<rparr>))"
proof -
  have "table_inv (st\<lparr>c_run := c_run st + 1\<rparr>)" using assms by (simp add: enc_inv_def table_inv_run)
  hence "table_inv (hash_insert inb (st\<lparr>c_run := c_run st + 1\<rparr>))" by (rule table_inv_hash_insert)
  thus ?thesis using assms by (simp add: enc_inv_def)
qed

lemma enc_inv_match:
  assumes "enc_inv in_len st" "4 \<le> best_len" "best_len \<le> in_len - c_p st"
  shows "enc_inv in_len (emit_match inb best_len dist st)"
proof -
  have "table_inv (insert_loop inb (nat best_len) st)"
    using assms by (intro table_inv_insert_loop) (simp add: enc_inv_def)
  hence "table_inv (emit_match inb best_len dist st)"
    using emit_match_tables [of inb best_len dist st] by (simp add: tables_eq_table_inv)
  thus ?thesis using assms by (simp add: enc_inv_def emit_match_c_run emit_match_p)
qed

text \<open>The state in which \<open>Compress\<close> returns, from a state of the main loop.\<close>

definition Fin :: "mem \<Rightarrow> int \<Rightarrow> int \<Rightarrow> cstate \<Rightarrow> cstate" where
  "Fin inb in_len level st = Compress_flush inb (Compress_loop inb in_len level st)"

lemma Fin_stop:
  "in_len \<le> c_p st \<Longrightarrow>
   Fin inb in_len level st = (if c_run st \<noteq> 0 then emit_run inb 0 st else st)"
  by (subst Fin_def, subst Compress_loop.simps) (simp add: Compress_flush_def)

lemma Fin_step:
  "c_p st < in_len \<Longrightarrow>
   Fin inb in_len level st = Fin inb in_len level (Compress_step inb in_len level st)"
  by (subst Fin_def, subst Compress_loop.simps) (simp add: Fin_def)

lemma Fin_induct [consumes 1, case_names stop lit mat]:
  assumes inv: "enc_inv in_len st"
      and stop: "\<And>st. enc_inv in_len st \<Longrightarrow> c_p st = in_len \<Longrightarrow>
                  Fin inb in_len level st = (if c_run st \<noteq> 0 then emit_run inb 0 st else st) \<Longrightarrow>
                  P st"
      and lit: "\<And>st. enc_inv in_len st \<Longrightarrow> c_p st < in_len \<Longrightarrow>
                  enc_inv in_len (hash_insert inb (st\<lparr>c_run := c_run st + 1\<rparr>)) \<Longrightarrow>
                  Fin inb in_len level st
                  = Fin inb in_len level (hash_insert inb (st\<lparr>c_run := c_run st + 1\<rparr>)) \<Longrightarrow>
                  P (hash_insert inb (st\<lparr>c_run := c_run st + 1\<rparr>)) \<Longrightarrow> P st"
      and mat: "\<And>st best_len dist. enc_inv in_len st \<Longrightarrow> c_p st < in_len \<Longrightarrow>
                  4 \<le> best_len \<Longrightarrow> best_len \<le> in_len - c_p st \<Longrightarrow>
                  1 \<le> dist \<Longrightarrow> dist \<le> c_p st \<Longrightarrow> dist < 131072 \<Longrightarrow>
                  is_match inb (c_p st) dist best_len \<Longrightarrow>
                  enc_inv in_len (emit_match inb best_len dist st) \<Longrightarrow>
                  Fin inb in_len level st = Fin inb in_len level (emit_match inb best_len dist st) \<Longrightarrow>
                  P (emit_match inb best_len dist st) \<Longrightarrow> P st"
  shows "P st"
  using inv
proof (induction "nat (in_len - c_p st)" arbitrary: st rule: less_induct)
  case less
  note i = less.prems
  show ?case
  proof (cases "c_p st < in_len")
    case False
    hence p: "c_p st = in_len" using i by (simp add: enc_inv_def)
    have "Fin inb in_len level st = (if c_run st \<noteq> 0 then emit_run inb 0 st else st)"
      using False by (intro Fin_stop) simp
    with i p show ?thesis by (rule stop)
  next
    case True
    note fs = Fin_step [OF True, of inb level]
    have adv: "nat (in_len - c_p (Compress_step inb in_len level st)) < nat (in_len - c_p st)"
      using True Compress_step_advances [of st inb in_len level] by simp
    from i show ?thesis
    proof (cases rule: Compress_step_cases [where inb = inb and level = level])
      case lit
      let ?st' = "hash_insert inb (st\<lparr>c_run := c_run st + 1\<rparr>)"
      have i': "enc_inv in_len ?st'" using i True by (rule enc_inv_literal)
      have fs': "Fin inb in_len level st = Fin inb in_len level ?st'" using fs by (simp only: lit)
      have adv': "nat (in_len - c_p ?st') < nat (in_len - c_p st)" using adv by (simp only: lit)
      have "P ?st'" using adv' i' by (rule less.hyps)
      with i True i' fs' show ?thesis by (rule assms(3))
    next
      case (mat best_len dist)
      let ?st' = "emit_match inb best_len dist st"
      have i': "enc_inv in_len ?st'" using i mat(2,3) by (rule enc_inv_match)
      have fs': "Fin inb in_len level st = Fin inb in_len level ?st'" using fs by (simp only: mat(1))
      have adv': "nat (in_len - c_p ?st') < nat (in_len - c_p st)" using adv by (simp only: mat(1))
      have "P ?st'" using adv' i' by (rule less.hyps)
      with i True mat(2-7) i' fs' show ?thesis by (rule assms(4))
    qed
  qed
qed

lemma agree_extend:
  assumes "agree od inb 0 a"
      and "\<And>q. q < a \<Longrightarrow> od1 q = od q"
      and "\<And>k. 0 \<le> k \<Longrightarrow> k < n \<Longrightarrow> od1 (a + k) = inb (a + k)"
  shows "agree od1 inb 0 (a + n)"
  unfolding agree_def
proof (intro allI impI)
  fix q assume q: "0 \<le> q \<and> q < a + n"
  show "od1 q = inb q"
  proof (cases "q < a")
    case True
    thus ?thesis using assms(2) [of q] agreeD [OF assms(1), of q] q by simp
  next
    case False
    hence "od1 (a + (q - a)) = inb (a + (q - a))" using q by (intro assms(3)) simp_all
    thus ?thesis by simp
  qed
qed

text \<open>What is written stays: the rest of the run only writes at \<open>op\<close> and above, and a
  run with work left writes something.\<close>

lemma Fin_frame:
  assumes inv: "enc_inv in_len st" and n: "in_len < 2147483648"
  shows "c_op st \<le> c_op (Fin inb in_len level st)
         \<and> (\<forall>q. q < c_op st \<longrightarrow> c_out (Fin inb in_len level st) q = c_out st q)
         \<and> (c_p st < in_len \<or> 0 < c_run st \<longrightarrow> c_op st < c_op (Fin inb in_len level st))"
  using inv
proof (induction rule: Fin_induct [where inb = inb and level = level])
  case (stop st)
  show ?case
  proof (cases "c_run st = 0")
    case True
    thus ?thesis using stop by simp
  next
    case False
    hence r: "0 < c_run st" "c_run st < 2147483648"
      using stop(1,2) n by (simp_all add: enc_inv_def)
    note fd = flush_decode(1,2) [OF r, where inb = inb]
    show ?thesis using False stop(3) fd by simp
  qed
next
  case (lit st)
  have "0 < c_run st + 1" using lit(1) by (simp add: enc_inv_def)
  thus ?case using lit(4,5) by simp
next
  case (mat st best_len dist)
  have r: "0 \<le> c_run st" "c_run st < 2147483648"
    using mat(1,2) n by (simp_all add: enc_inv_def)
  have bl: "4 \<le> best_len" "best_len < 2147483648" using mat(3,4) mat(1) n by (simp_all add: enc_inv_def)
  have d: "0 \<le> dist" "dist < 131072" using mat(5,7) by simp_all
  note em = emit_match_decode(1,2) [OF r bl d, where inb = inb]
  let ?st' = "emit_match inb best_len dist st"
  have 1: "c_op st < c_op (Fin inb in_len level st)" using em(1) mat(10,11) by simp
  have "c_out (Fin inb in_len level st) q = c_out st q" if "q < c_op st" for q
  proof -
    have "q < c_op ?st'" using that em(1) by simp
    hence "c_out (Fin inb in_len level ?st') q = c_out ?st' q" using mat(11) by simp
    thus ?thesis using em(2) [OF that] mat(10) by simp
  qed
  thus ?case using 1 by simp
qed

lemma dist_word:
  assumes d: "1 \<le> dist" "dist < 131072"
      and l: "UnalignedLoad16 cb ip = word_of_int dist"
      and dd: "dd = (word_of_int (65536 * (dist div 65536)) :: U32) + ucast (UnalignedLoad16 cb ip)"
  shows "uint dd = dist"
proof -
  have d0: "0 \<le> dist" using d by simp
  have "dd = word_of_int dist" unfolding dd l using d0 d(2) by (rule dist_fields(4))
  thus ?thesis using d by (simp add: uint_word_of_int_small)
qed

text \<open>The decoder, started at a token boundary of the stream that \<open>Compress\<close> goes on to
  write, with the input reproduced so far, reproduces the whole input.\<close>

lemma Fin_decode:
  assumes inv: "enc_inv in_len st" and n: "in_len < 2147483648"
  shows "\<forall>cb od. agree cb (c_out (Fin inb in_len level st)) (c_op st) (c_op (Fin inb in_len level st))
           \<longrightarrow> agree od inb 0 (c_p st - c_run st)
           \<longrightarrow> (\<exists>od'. Decompress_loop cb (c_op (Fin inb in_len level st)) in_len
                         (c_op st) (c_p st - c_run st) od = (in_len, od')
                      \<and> agree od' inb 0 in_len)"
  using inv
proof (induction rule: Fin_induct [where inb = inb and level = level])
  case (stop st)
  show ?case
  proof (cases "c_run st = 0")
    case True
    hence f: "Fin inb in_len level st = st" using stop(3) by simp
    show ?thesis
      unfolding f using True stop(2) by (subst Decompress_loop.simps) simp
  next
    case False
    hence r: "0 < c_run st" "c_run st < 2147483648"
      using stop(1,2) n by (simp_all add: enc_inv_def)
    have f: "Fin inb in_len level st = emit_run inb 0 st" using False stop(3) by simp
    note fd = flush_decode [OF r, where inb = inb]
    show ?thesis
      unfolding f
    proof (intro allI impI)
      fix cb od
      assume ag: "agree cb (c_out (emit_run inb 0 st)) (c_op st) (c_op (emit_run inb 0 st))"
        and ao: "agree od inb 0 (c_p st - c_run st)"
      have oe: "c_p st \<le> in_len" using stop(2) by simp
      obtain od1 where fr: "\<And>q. q < c_p st - c_run st \<Longrightarrow> od1 q = od q"
        and li: "\<And>k. 0 \<le> k \<Longrightarrow> k < c_run st \<Longrightarrow>
                   od1 (c_p st - c_run st + k) = inb (c_p st - c_run st + k)"
        and b: "Decompress_body cb (c_op (emit_run inb 0 st)) in_len (c_op st)
                  (c_p st - c_run st) od = Stop (c_op (emit_run inb 0 st)) (c_p st) od1"
        using fd(3) [OF ag oe, of od] by blast
      have "agree od1 inb 0 (c_p st - c_run st + c_run st)" using ao fr li by (rule agree_extend)
      hence a1: "agree od1 inb 0 in_len" using stop(2) by simp
      have "Decompress_loop cb (c_op (emit_run inb 0 st)) in_len (c_op st) (c_p st - c_run st) od
            = (in_len, od1)"
        using fd(1) stop(2) by (subst Decompress_loop.simps) (simp add: b [unfolded stop(2)])
      thus "\<exists>od'. Decompress_loop cb (c_op (emit_run inb 0 st)) in_len (c_op st)
                     (c_p st - c_run st) od = (in_len, od') \<and> agree od' inb 0 in_len"
        using a1 by blast
    qed
  qed
next
  case (lit st)
  show ?case using lit(4,5) by simp
next
  case (mat st best_len dist)
  let ?st' = "emit_match inb best_len dist st"
  let ?F = "Fin inb in_len level st"
  have F: "?F = Fin inb in_len level ?st'" by (rule mat(10))
  have r: "0 \<le> c_run st" "c_run st < 2147483648"
    using mat(1,2) n by (simp_all add: enc_inv_def)
  have bl: "4 \<le> best_len" "best_len < 2147483648"
    using mat(3,4) mat(1) n by (simp_all add: enc_inv_def)
  have d: "0 \<le> dist" "dist < 131072" using mat(5,7) by simp_all
  note em = emit_match_decode [OF r bl d, where inb = inb]
  note ff = Fin_frame [OF mat(9) n, of inb level, folded F]
  have p': "c_p ?st' = c_p st + best_len" using bl by (simp add: emit_match_p)
  show ?case
  proof (intro allI impI)
    fix cb od
    assume ag: "agree cb (c_out ?F) (c_op st) (c_op ?F)"
      and ao: "agree od inb 0 (c_p st - c_run st)"
    have ag': "agree cb (c_out ?st') (c_op st) (c_op ?st')"
      unfolding agree_def
    proof (intro allI impI)
      fix q assume q: "c_op st \<le> q \<and> q < c_op ?st'"
      hence "cb q = c_out ?F q" using ff by (intro agreeD [OF ag]) simp_all
      thus "cb q = c_out ?st' q" using ff q by simp
    qed
    have ag1: "agree cb (c_out ?st') (c_op st) (c_op ?st' - 2)"
      using ag' by (rule agree_sub) simp_all
    have ag2: "agree cb (c_out ?st') (c_op ?st' - 2) (c_op ?st')"
      using ag' by (rule agree_sub) (use em(1) in simp_all)
    have ie: "c_op ?st' - 1 \<le> c_op ?F" using ff by simp
    have oe: "c_p st + best_len \<le> in_len" using mat(4) by simp
    obtain od1 dd where fr: "\<And>q. q < c_p st - c_run st \<Longrightarrow> od1 q = od q"
        and li: "\<And>k. 0 \<le> k \<Longrightarrow> k < c_run st \<Longrightarrow>
                   od1 (c_p st - c_run st + k) = inb (c_p st - c_run st + k)"
        and dd: "dd = (word_of_int (65536 * (dist div 65536)) :: U32)
                      + ucast (UnalignedLoad16 cb (c_op ?st' - 2))"
        and b: "Decompress_body cb (c_op ?F) in_len (c_op st) (c_p st - c_run st) od =
                 (if c_p st < uint dd then Ret (- 1) od1
                  else Next (c_op ?st') (c_p st + best_len)
                         (if 4 \<le> dd
                          then WildCopy (\<lambda>m. m) od1 (c_p st) (c_p st - uint dd) best_len
                          else byte_copy od1 (c_p st) (c_p st - uint dd) (nat best_len)))"
      using em(5) [OF ag1 ie oe, of od] by blast
    have ud: "uint dd = dist" using mat(5,7) em(4) [OF ag2] dd by (rule dist_word)
    have "agree od1 inb 0 (c_p st - c_run st + c_run st)" using ao fr li by (rule agree_extend)
    hence a1: "agree od1 inb 0 (c_p st)" by simp
    define od2 where "od2 = (if 4 \<le> dd
                          then WildCopy (\<lambda>m. m) od1 (c_p st) (c_p st - uint dd) best_len
                          else byte_copy od1 (c_p st) (c_p st - uint dd) (nat best_len))"
    have m: "is_match inb (c_p st) (uint dd) best_len" using mat(8) by (simp add: ud)
    have dr: "1 \<le> uint dd" "uint dd \<le> c_p st" using mat(5,6) by (simp_all add: ud)
    have a2: "agree od2 inb 0 (c_p st + best_len)"
      unfolding od2_def using a1 m dr by (rule match_copy_correct)
    have b': "Decompress_body cb (c_op ?F) in_len (c_op st) (c_p st - c_run st) od
              = Next (c_op ?st') (c_p st + best_len) od2"
      using b dr by (simp add: od2_def)
    have lt: "c_op st < c_op ?F" using em(1) ff by simp
    have step: "Decompress_loop cb (c_op ?F) in_len (c_op st) (c_p st - c_run st) od
          = Decompress_loop cb (c_op ?F) in_len (c_op ?st') (c_p st + best_len) od2"
      using lt by (subst Decompress_loop.simps) (simp add: b')
    have ag3: "agree cb (c_out ?F) (c_op ?st') (c_op ?F)"
      using ag by (rule agree_sub) (use em(1) in simp_all)
    have a3: "agree od2 inb 0 (c_p ?st' - c_run ?st')" using a2 by (simp add: p' em(3))
    have "\<exists>od'. Decompress_loop cb (c_op ?F) in_len (c_op ?st') (c_p ?st' - c_run ?st') od2
                  = (in_len, od') \<and> agree od' inb 0 in_len"
      using mat(11) ag3 a3 unfolding F [symmetric] by blast
    thus "\<exists>od'. Decompress_loop cb (c_op ?F) in_len (c_op st) (c_p st - c_run st) od
                  = (in_len, od') \<and> agree od' inb 0 in_len"
      by (simp add: step p' em(3))
  qed
qed

text \<open>The decoder, started at a token boundary of the stream that \<open>Compress\<close> goes on to
  write, and given all but the last byte of it, returns \<open>-1\<close>.\<close>

lemma Fin_truncated:
  assumes inv: "enc_inv in_len st" and n: "in_len < 2147483648"
  shows "\<forall>cb od. (c_p st < in_len \<or> 0 < c_run st)
           \<longrightarrow> agree cb (c_out (Fin inb in_len level st)) (c_op st)
                 (c_op (Fin inb in_len level st) - 1)
           \<longrightarrow> fst (Decompress_loop cb (c_op (Fin inb in_len level st) - 1) in_len
                      (c_op st) (c_p st - c_run st) od) = - 1"
  using inv
proof (induction rule: Fin_induct [where inb = inb and level = level])
  case (stop st)
  show ?case
  proof (intro allI impI)
    fix cb od
    assume w: "c_p st < in_len \<or> 0 < c_run st"
      and ag: "agree cb (c_out (Fin inb in_len level st)) (c_op st)
                 (c_op (Fin inb in_len level st) - 1)"
    have r: "0 < c_run st" "c_run st < 2147483648"
      using w stop(1,2) n by (simp_all add: enc_inv_def)
    have f: "Fin inb in_len level st = emit_run inb 0 st" using r stop(3) by simp
    note fd = flush_decode [OF r, where inb = inb]
    have "Decompress_body cb (c_op (emit_run inb 0 st) - 1) in_len (c_op st)
            (c_p st - c_run st) od = Ret (- 1) od"
      using ag unfolding f by (rule fd(4)) simp
    thus "fst (Decompress_loop cb (c_op (Fin inb in_len level st) - 1) in_len
                      (c_op st) (c_p st - c_run st) od) = - 1"
      unfolding f using fd(1) by (subst Decompress_loop.simps) simp
  qed
next
  case (lit st)
  have "0 < c_run st + 1" using lit(1) by (simp add: enc_inv_def)
  thus ?case using lit(4,5) by simp
next
  case (mat st best_len dist)
  let ?st' = "emit_match inb best_len dist st"
  let ?F = "Fin inb in_len level st"
  have F: "?F = Fin inb in_len level ?st'" by (rule mat(10))
  have r: "0 \<le> c_run st" "c_run st < 2147483648"
    using mat(1,2) n by (simp_all add: enc_inv_def)
  have bl: "4 \<le> best_len" "best_len < 2147483648"
    using mat(3,4) mat(1) n by (simp_all add: enc_inv_def)
  have d: "0 \<le> dist" "dist < 131072" using mat(5,7) by simp_all
  note em = emit_match_decode [OF r bl d, where inb = inb]
  note ff = Fin_frame [OF mat(9) n, of inb level, folded F]
  have p': "c_p ?st' = c_p st + best_len" using bl by (simp add: emit_match_p)
  show ?case
  proof (intro allI impI)
    fix cb od
    assume ag: "agree cb (c_out ?F) (c_op st) (c_op ?F - 1)"
    have ag1: "agree cb (c_out ?st') (c_op st) (c_op ?st' - 2)"
      unfolding agree_def
    proof (intro allI impI)
      fix q assume q: "c_op st \<le> q \<and> q < c_op ?st' - 2"
      hence "cb q = c_out ?F q" using ff by (intro agreeD [OF ag]) simp_all
      thus "cb q = c_out ?st' q" using ff q by simp
    qed
    have ie: "c_op ?st' - 1 \<le> c_op ?F - 1" using ff by simp
    have oe: "c_p st + best_len \<le> in_len" using mat(4) by simp
    obtain od1 and dd :: U32 where
        b: "Decompress_body cb (c_op ?F - 1) in_len (c_op st) (c_p st - c_run st) od =
                 (if c_p st < uint dd then Ret (- 1) od1
                  else Next (c_op ?st') (c_p st + best_len)
                         (if 4 \<le> dd
                          then WildCopy (\<lambda>m. m) od1 (c_p st) (c_p st - uint dd) best_len
                          else byte_copy od1 (c_p st) (c_p st - uint dd) (nat best_len)))"
      using em(5) [OF ag1 ie oe, of od] by blast
    define od2 where "od2 = (if 4 \<le> dd
                          then WildCopy (\<lambda>m. m) od1 (c_p st) (c_p st - uint dd) best_len
                          else byte_copy od1 (c_p st) (c_p st - uint dd) (nat best_len))"
    have lt: "c_op st < c_op ?F - 1" using em(1) ff by simp
    have rest: "fst (Decompress_loop cb (c_op ?F - 1) in_len (c_op ?st') (c_p st + best_len) od2)
                = - 1"
    proof (cases "c_p ?st' < in_len")
      case True
      have "agree cb (c_out ?F) (c_op ?st') (c_op ?F - 1)"
        using ag by (rule agree_sub) (use em(1) in simp_all)
      hence "fst (Decompress_loop cb (c_op ?F - 1) in_len (c_op ?st') (c_p ?st' - c_run ?st') od2)
             = - 1"
        using mat(11) True unfolding F [symmetric] by blast
      thus ?thesis by (simp add: p' em(3))
    next
      case False
      hence "Fin inb in_len level ?st' = ?st'"
        using Fin_stop [of in_len ?st' inb level] by (simp add: em(3))
      hence e: "c_op ?F = c_op ?st'" by (simp add: F)
      show ?thesis unfolding e by (subst Decompress_loop.simps) simp
    qed
    show "fst (Decompress_loop cb (c_op ?F - 1) in_len (c_op st) (c_p st - c_run st) od) = - 1"
      using lt rest by (subst Decompress_loop.simps) (simp add: b od2_def)
  qed
qed

lemma Compress_state_Fin:
  "Compress_state c inb in_len out level = Fin inb in_len level (Compress_init c out)"
  by (simp add: Compress_state_def Fin_def)

lemma Compress_init_fields:
  "c_op (Compress_init c out) = 0" "c_p (Compress_init c out) = 0"
  "c_run (Compress_init c out) = 0"
  by (simp_all add: Compress_init_def)

section \<open>The variable-length integer round-trips\<close>

text \<open>
  Claim C4.  For every 32-bit value \<open>x\<close>, \<open>EncodeMod\<close> writes at least one and at most five
  bytes, starting at \<open>p\<close> and ending before the pointer \<open>p'\<close> it returns, and changes no
  other byte of the buffer; \<open>DecodeMod\<close>, run at \<open>p\<close> on the buffer \<open>EncodeMod\<close> has left,
  returns \<open>x\<close> and stops at the same pointer \<open>p'\<close>: it consumes exactly the bytes that were
  emitted.
\<close>

theorem EncodeMod_DecodeMod_roundtrip:
  "case EncodeMod m p x of
     (m', p') \<Rightarrow> p < p' \<and> p' \<le> p + 5 \<and> DecodeMod m' p = (x, p')
                \<and> (\<forall>q. m' q = (if p \<le> q \<and> q < p' then m' q else m q))"
proof -
  obtain m' p' where enc: "EncodeMod m p x = (m', p')" by (cases "EncodeMod m p x")
  have "unat x < 2 ^ (32 - 7 * 0)" using unsigned_less [of x] by simp
  hence "p < p' \<and> p' \<le> p + 5 - int 0
         \<and> DecodeMod_loop m' p 0 (7 * 0) = (0 + push_bit (7 * 0) x, p')
         \<and> (\<forall>q. q < p \<or> p' \<le> q \<longrightarrow> m' q = m q)"
    by (intro EncodeMod_DecodeMod_loop [OF enc]) simp_all
  thus ?thesis by (auto simp: enc DecodeMod_def)
qed

section \<open>The wide copy of a match agrees with the byte-by-byte copy\<close>

text \<open>
  Claim C5.  In the decoder a match of distance \<open>dist\<close> and length \<open>len\<close> is expanded at \<open>op\<close>
  from \<open>cp = op - dist\<close>, by \<open>WildCopy\<close> when \<open>dist \<ge> 4\<close> and by the byte loop otherwise.
  For every distance of at least 4 and every length (a length that has passed the overrun
  check is below \<open>2^31\<close>, since \<open>out_len\<close> is an \<open>int\<close>), the wide copy leaves at
  each of the \<open>len\<close> offsets \<open>op + k\<close> the byte that the byte-by-byte loop would leave there,
  also when source and destination overlap (\<open>dist < len\<close>, in particular \<open>dist\<close> from 4 to
  7); and neither changes a byte below \<open>op\<close>.
\<close>

theorem WildCopy_matches_byte_copy:
  assumes "4 \<le> (dist :: U32)" and "uint (len :: U32) < 2147483648"
  shows "(0 \<le> k \<and> k < uint len \<longrightarrow>
            WildCopy (\<lambda>m. m) out op (op - uint dist) (sint len) (op + k)
            = byte_copy out op (op - uint dist) (unat len) (op + k))
         \<and> (q < op \<longrightarrow>
            WildCopy (\<lambda>m. m) out op (op - uint dist) (sint len) q = out q
            \<and> byte_copy out op (op - uint dist) (unat len) q = out q)"
proof -
  let ?d = "uint dist"
  let ?w = "WildCopy (\<lambda>m. m) out op (op - ?d) (sint len)"
  let ?b = "byte_copy out op (op - ?d) (unat len)"
  have d4: "4 \<le> ?d" using assms(1) by (simp add: word_le_def)
  have sl: "sint len = uint len" using assms(2) by (rule sint_eq_uint_U32)
  have fw: "?w q = out q" if "q < op" for q using that by (intro WildCopy_frame) simp
  have fb: "?b q = out q" if "q < op" for q using that by (intro byte_copy_frame) simp
  have rw: "?w (op + k) = ?w (op - ?d + k)" if "0 \<le> k" "k < uint len" for k
    using that d4 by (intro WildCopy_self) (auto simp: sl)
  have rb: "?b (op + k) = ?b (op - ?d + k)" if "0 \<le> k" "k < uint len" for k
    using that d4 by (intro byte_copy_self) (simp_all flip: uint_nat)
  have "?w (op + k) = ?b (op + k)" if "0 \<le> k" "k < uint len" for k
  proof (rule periodic_unique [where a = ?w and b = ?b and d = op and dist = ?d and n = "uint len"])
    show "?w q = ?b q" if "q < op" for q using that fw fb by simp
    show "0 < ?d" using d4 by simp
  qed (use that rw rb in auto)
  thus ?thesis using fw fb by blast
qed

theorem WildCopy_matches_byte_copy_witness:
  "4 \<le> (5 :: U32) \<and> uint (12 :: U32) < 2147483648
   \<and> WildCopy (\<lambda>m. m) (bytes [1, 2, 3, 4, 5]) 5 (5 - uint (5 :: U32)) (sint (12 :: U32)) (5 + 11)
       = byte_copy (bytes [1, 2, 3, 4, 5]) 5 (5 - uint (5 :: U32)) (unat (12 :: U32)) (5 + 11)
   \<and> WildCopy (\<lambda>m. m) (bytes [1, 2, 3, 4, 5]) 5 (5 - uint (5 :: U32)) (sint (12 :: U32)) 4
       = bytes [1, 2, 3, 4, 5] 4"
proof -
  have h1: "4 \<le> (5 :: U32)" by simp
  have h2: "uint (12 :: U32) < 2147483648" by simp
  show ?thesis
    using WildCopy_matches_byte_copy [OF h1 h2, of 11 "bytes [1, 2, 3, 4, 5]" 5 4] h1 h2
    by simp
qed

section \<open>The short-match suppression\<close>




section \<open>A match before any output is rejected\<close>

text \<open>
  Claim C9.  Take a non-empty stream whose first tag is below 32 (no literal run) and
  whose first token carries a distance other than 0.  \<open>Decompress\<close> returns \<open>-1\<close> on it,
  whatever the output capacity: either the length fails the overrun check, or the range
  check finds the distance greater than \<open>op - out = 0\<close>.
\<close>

theorem Decompress_rejects_leading_match:
  assumes "0 < in_len" and "(ucast (inb 0) :: U32) < 32" and "first_token_dist inb \<noteq> 0"
  shows "fst (Decompress inb in_len out out_len) = - 1"
proof -
  let ?tag = "ucast (inb 0) :: U32"
  have l: "literal_phase inb in_len out_len ?tag 1 0 out = Next 1 0 out"
    using assms(2) by (simp add: literal_phase_def linorder_not_le [symmetric])
  have nz: "0 < uint (first_token_dist inb)"
    using assms(3) uint_ge_0 [of "first_token_dist inb"] uint_0_iff [of "first_token_dist inb"]
    by linarith
  have t: "(?tag AND 15) + 4 = 19 \<longleftrightarrow> ?tag AND 15 = 15"
  proof -
    have "(19 :: U32) = 15 + 4" by simp
    thus ?thesis by (simp only: add_right_cancel)
  qed
  have "\<exists>o'. match_phase inb out_len ?tag 1 0 out = Ret (- 1) o'"
  proof (cases "?tag AND 15 = 15")
    case True
    obtain x ip' where d: "DecodeMod inb 1 = (x, ip')" by (cases "DecodeMod inb 1")
    have "0 < uint (push_bit 12 (?tag AND 16) + ucast (UnalignedLoad16 inb ip'))"
      using nz True d by (simp add: first_token_dist_def Let_def)
    thus ?thesis using True d
      by (simp add: match_phase_def Let_def MIN_MATCH_def)
  next
    case False
    have "0 < uint (push_bit 12 (?tag AND 16) + ucast (UnalignedLoad16 inb 1))"
      using nz False by (simp add: first_token_dist_def Let_def)
    thus ?thesis using False
      by (simp add: match_phase_def Let_def MIN_MATCH_def t)
  qed
  then obtain o' where "Decompress_body inb in_len out_len 0 0 out = Ret (- 1) o'"
    using l by (auto simp: Decompress_body_def)
  thus ?thesis using assms(1) by (simp add: Decompress_def Decompress_loop.simps)
qed


theorem Decompress_rejects_leading_match_witness:
  "(0 :: int) < 3 \<and> (ucast (bytes [0, 1, 0] 0) :: U32) < 32
   \<and> first_token_dist (bytes [0, 1, 0]) \<noteq> 0
   \<and> fst (Decompress (bytes [0, 1, 0]) 3 (\<lambda>_. 0) 8) = - 1"
proof -
  have h1: "(0 :: int) < 3" by simp
  have h2: "(ucast (bytes [0, 1, 0] 0) :: U32) < 32" by (simp add: bytes_def)
  have h3: "first_token_dist (bytes [0, 1, 0]) \<noteq> 0"
    by (simp add: first_token_dist_def bytes_def UnalignedLoad16_def)
  show ?thesis
    using Decompress_rejects_leading_match [OF h1 h2 h3, of "\<lambda>_. 0" 8] h1 h2 h3 by simp
qed

section \<open>A match of distance 0 is accepted\<close>

text \<open>
  Claim C10.  The three-byte stream \<open>00 00 00\<close> is one token: no literal run, length
  4, bit 4 of the tag clear and a 16-bit field of 0, so the distance is 0.  The range check
  \<open>(op-out) < dist\<close> lets it pass, the byte loop copies four bytes onto themselves, and
  \<open>Decompress\<close> with capacity 4 returns 4 and leaves the output buffer as it found it.
\<close>

theorem Decompress_accepts_zero_distance:
  "(ucast (bytes [0, 0, 0] 0) :: U32) AND 16 = 0
   \<and> UnalignedLoad16 (bytes [0, 0, 0]) 1 = 0
   \<and> match_phase (bytes [0, 0, 0]) 4 0 1 0 out = Next 3 4 (byte_copy out 0 0 4)
   \<and> Decompress (bytes [0, 0, 0]) 3 out 4 = (4, out)"
proof -
  have b: "byte_copy out 0 0 4 = out"
    by (simp add: eval_nat_numeral fun_upd_idem)
  have m: "match_phase (bytes [0, 0, 0]) 4 0 1 0 out = Next 3 4 (byte_copy out 0 0 4)"
    by (simp add: match_phase_def Let_def ulz_consts UnalignedLoad16_def bytes_def)
  have l: "literal_phase (bytes [0, 0, 0]) 3 4 0 1 0 out = Next 1 0 out"
    by (simp add: literal_phase_def)
  have "Decompress_body (bytes [0, 0, 0]) 3 4 0 0 out = Next 3 4 out"
    using m l b by (simp add: Decompress_body_def bytes_def)
  hence "Decompress (bytes [0, 0, 0]) 3 out 4 = (4, out)"
    by (simp add: Decompress_def Decompress_loop.simps)
  thus ?thesis using m by (simp add: bytes_def UnalignedLoad16_def)
qed

section \<open>Decoder safety\<close>

text \<open>
  Claim C2, as stated, fails: the wide copy moves eight bytes at a time, so a literal run
  of one byte decoded into a buffer of capacity 1 writes the output offsets 0 to 7, and
  what it writes at offset 1 is the input byte at offset 2, which lies after the
  two-byte stream.  The call returns 1.
\<close>

theorem Decompress_overrun_counterexample:
  "fst (Decompress (bytes [0x20, 0x41, 0x42]) 2 (\<lambda>_. 0) 1) = 1
   \<and> snd (Decompress (bytes [0x20, 0x41, 0x42]) 2 (\<lambda>_. 0) 1) 1 = 0x42
   \<and> snd (Decompress (bytes [0x20, 0x41, 0x43]) 2 (\<lambda>_. 0) 1) 1 = 0x43"
proof -
  have "Decompress_body (bytes [0x20, 0x41, b]) 2 1 0 0 (\<lambda>_. 0)
        = Stop 2 1 (WildCopy (\<lambda>_. bytes [0x20, 0x41, b]) (\<lambda>_. 0) 0 1 1)" for b
    by (simp add: Decompress_body_def literal_phase_def bytes_def Let_def)
  hence d: "Decompress (bytes [0x20, 0x41, b]) 2 (\<lambda>_. 0) 1
        = (1, WildCopy (\<lambda>_. bytes [0x20, 0x41, b]) (\<lambda>_. 0) 0 1 1)" for b
    by (simp add: Decompress_def Decompress_loop.simps)
  have "WildCopy (\<lambda>_. bytes [0x20, 0x41, b]) (\<lambda>_. 0) 0 1 1 (0 + 1) = bytes [0x20, 0x41, b] (1 + 1)" for b
    by (rule WildCopy_lit) simp_all
  thus ?thesis by (simp add: d bytes_def)
qed

text \<open>
  Claim C2, amended.  For every input buffer, every \<open>in_len\<close> and every capacity
  \<open>out_len \<ge> 0\<close>, \<open>Decompress\<close> returns either \<open>-1\<close> or a length between 0 and \<open>out_len\<close>.
  It leaves every output byte at an offset of \<open>out_len + 8\<close> or more (and every byte
  before the buffer) as it found it; and neither the value it returns nor the output
  buffer it leaves depends on an input byte at an offset of \<open>in_len + 8\<close> or more.  So the
  accesses past the two ends stay within the \<open>EXCESS\<close> margin of 16 bytes.
\<close>

theorem Decompress_bounded_overrun:
  assumes "0 \<le> out_len"
  shows "(fst (Decompress inb in_len out out_len) = - 1
          \<or> (0 \<le> fst (Decompress inb in_len out out_len)
             \<and> fst (Decompress inb in_len out out_len) \<le> out_len))
         \<and> (q < 0 \<or> out_len + 8 \<le> q \<longrightarrow> snd (Decompress inb in_len out out_len) q = out q)
         \<and> ((\<forall>q. 0 \<le> q \<and> q < in_len + 8 \<longrightarrow> inb' q = inb q) \<longrightarrow>
              Decompress inb' in_len out out_len = Decompress inb in_len out out_len)"
proof -
  have "Decompress inb' in_len out out_len = Decompress inb in_len out out_len"
    if "\<forall>q. 0 \<le> q \<and> q < in_len + 8 \<longrightarrow> inb' q = inb q"
    unfolding Decompress_def using that by (intro Decompress_loop_cong) auto
  thus ?thesis
    using Decompress_loop_safe [of 0 out_len inb in_len 0 out] assms
    by (auto simp: Decompress_def)
qed

theorem Decompress_bounded_overrun_witness:
  "(0 :: int) \<le> 1
   \<and> (fst (Decompress (bytes [0x20, 0x41, 0x42]) 2 (\<lambda>_. 0) 1) = - 1
      \<or> (0 \<le> fst (Decompress (bytes [0x20, 0x41, 0x42]) 2 (\<lambda>_. 0) 1)
         \<and> fst (Decompress (bytes [0x20, 0x41, 0x42]) 2 (\<lambda>_. 0) 1) \<le> 1))
   \<and> snd (Decompress (bytes [0x20, 0x41, 0x42]) 2 (\<lambda>_. 0) 1) 9 = 0
   \<and> Decompress ((bytes [0x20, 0x41, 0x42])(10 := 0x99)) 2 (\<lambda>_. 0) 1
       = Decompress (bytes [0x20, 0x41, 0x42]) 2 (\<lambda>_. 0) 1"
proof -
  have h: "(0 :: int) \<le> 1" by simp
  show ?thesis
    using Decompress_bounded_overrun [OF h, where inb = "bytes [0x20, 0x41, 0x42]"
        and in_len = 2 and out = "\<lambda>_. 0" and q = 9
        and inb' = "(bytes [0x20, 0x41, 0x42])(10 := 0x99)"]
    by simp
qed

section \<open>Every insertion keeps the chains complete\<close>

text \<open>
  Claim C6.  Let \<open>st\<close> be a state in which \<open>Compress\<close> evaluates the condition of its main
  loop, and let \<open>k\<close> further positions be inserted (\<open>k = 0\<close>: the state itself; \<open>k = 1\<close>: the
  tables after the insertion of a literal; \<open>k\<close> up to \<open>best_len\<close>: the tables during and after
  the insertions of a match, whose emission changes the output only).  Then, with \<open>p\<close> the
  position reached, every \<open>q\<close> from \<open>max(0, p - W + 1)\<close> to \<open>p - 1\<close> is reachable from
  \<open>Head\<close> at the hash of its four bytes by following \<open>Tail\<close>, before the walk reaches the
  window floor.
\<close>

theorem hash_chain_reachability:
  assumes "Compress_reach c inb in_len out level st"
  shows "hash_inv inb (insert_loop inb k st)"
  using Compress_reach_chain_inv [OF assms] chain_inv_insert_loop [of inb st k]
  by (simp add: chain_inv_def)

theorem hash_chain_reachability_witness:
  "Compress_reach \<lparr>Head = (\<lambda>_. 0), Tail = (\<lambda>_. 0), c_out = (\<lambda>_. 0), c_op = 0, c_run = 0, c_p = 0\<rparr>
     (bytes [1, 2, 3, 4, 5]) 5 (\<lambda>_. 0) 1
     (Compress_step (bytes [1, 2, 3, 4, 5]) 5 1
        (Compress_init
           \<lparr>Head = (\<lambda>_. 0), Tail = (\<lambda>_. 0), c_out = (\<lambda>_. 0), c_op = 0, c_run = 0, c_p = 0\<rparr>
           (\<lambda>_. 0)))
   \<and> hash_inv (bytes [1, 2, 3, 4, 5])
       (insert_loop (bytes [1, 2, 3, 4, 5]) 1
          (Compress_step (bytes [1, 2, 3, 4, 5]) 5 1
             (Compress_init
                \<lparr>Head = (\<lambda>_. 0), Tail = (\<lambda>_. 0), c_out = (\<lambda>_. 0), c_op = 0, c_run = 0, c_p = 0\<rparr>
                (\<lambda>_. 0))))"
proof -
  let ?c = "\<lparr>Head = (\<lambda>_. 0), Tail = (\<lambda>_. 0), c_out = (\<lambda>_. 0), c_op = 0, c_run = 0, c_p = 0\<rparr>
            :: cstate"
  let ?inb = "bytes [1, 2, 3, 4, 5]"
  have "c_p (Compress_init ?c (\<lambda>_. 0)) < 5" by (simp add: Compress_init_def)
  with reach_init have r: "Compress_reach ?c ?inb 5 (\<lambda>_. 0) 1
                             (Compress_step ?inb 5 1 (Compress_init ?c (\<lambda>_. 0)))"
    by (rule reach_step)
  show ?thesis using hash_chain_reachability [OF r, of 1] r by simp
qed

section \<open>The round trip\<close>

text \<open>
  Claim C1.  Take an input of \<open>in_len\<close> bytes, \<open>0 \<le> in_len < 2^31\<close>, a level from 1 to 9, any
  state of the tables of the object and any output buffer.  Let \<open>cb\<close> be a buffer that holds,
  at the offsets below the length that \<open>Compress\<close> returns, the bytes that \<open>Compress\<close> has
  written there.  Then \<open>Decompress\<close>, run on \<open>cb\<close> with that length and with the capacity
  \<open>in_len\<close>, returns \<open>in_len\<close> and leaves the bytes of the input at the offsets 0 to
  \<open>in_len - 1\<close> of its output buffer.
\<close>

theorem Compress_Decompress_roundtrip:
  assumes "0 \<le> in_len" and "in_len < 2147483648" and "1 \<le> level" and "level \<le> 9"
      and "\<And>q. 0 \<le> q \<Longrightarrow> q < Compress c inb in_len out level \<Longrightarrow>
                cb q = Compress_out c inb in_len out level q"
  shows "fst (Decompress cb (Compress c inb in_len out level) od in_len) = in_len
         \<and> (\<forall>k. 0 \<le> k \<and> k < in_len \<longrightarrow>
                snd (Decompress cb (Compress c inb in_len out level) od in_len) k = inb k)"
proof -
  let ?st = "Compress_init c out"
  let ?F = "Fin inb in_len level ?st"
  have inv: "enc_inv in_len ?st" using assms(1) by (rule enc_inv_init)
  have C: "Compress c inb in_len out level = c_op ?F" "Compress_out c inb in_len out level = c_out ?F"
    by (simp_all add: Compress_def Compress_out_def Compress_state_Fin)
  have ag: "agree cb (c_out ?F) (c_op ?st) (c_op ?F)"
    using assms(5) by (simp add: agree_def C Compress_init_fields)
  have ao: "agree od inb 0 (c_p ?st - c_run ?st)" by (auto simp: agree_def Compress_init_fields)
  obtain od' where "Decompress_loop cb (c_op ?F) in_len (c_op ?st) (c_p ?st - c_run ?st) od
                    = (in_len, od')" and "agree od' inb 0 in_len"
    using Fin_decode [OF inv assms(2), of inb level] ag ao by blast
  thus ?thesis by (simp add: Decompress_def C Compress_init_fields agree_def)
qed

theorem Compress_Decompress_roundtrip_witness:
  "(0 :: int) \<le> 3 \<and> (3 :: int) < 2147483648 \<and> (1 :: int) \<le> 1 \<and> (1 :: int) \<le> 9
   \<and> fst (Decompress
        (Compress_out \<lparr>Head = (\<lambda>_. 0), Tail = (\<lambda>_. 0), c_out = (\<lambda>_. 0), c_op = 0, c_run = 0, c_p = 0\<rparr>
           (bytes [7, 8, 9]) 3 (\<lambda>_. 0) 1)
        (Compress \<lparr>Head = (\<lambda>_. 0), Tail = (\<lambda>_. 0), c_out = (\<lambda>_. 0), c_op = 0, c_run = 0, c_p = 0\<rparr>
           (bytes [7, 8, 9]) 3 (\<lambda>_. 0) 1)
        (\<lambda>_. 0) 3) = 3
   \<and> snd (Decompress
        (Compress_out \<lparr>Head = (\<lambda>_. 0), Tail = (\<lambda>_. 0), c_out = (\<lambda>_. 0), c_op = 0, c_run = 0, c_p = 0\<rparr>
           (bytes [7, 8, 9]) 3 (\<lambda>_. 0) 1)
        (Compress \<lparr>Head = (\<lambda>_. 0), Tail = (\<lambda>_. 0), c_out = (\<lambda>_. 0), c_op = 0, c_run = 0, c_p = 0\<rparr>
           (bytes [7, 8, 9]) 3 (\<lambda>_. 0) 1)
        (\<lambda>_. 0) 3) 2 = 9"
proof -
  let ?c = "\<lparr>Head = (\<lambda>_. 0), Tail = (\<lambda>_. 0), c_out = (\<lambda>_. 0), c_op = 0, c_run = 0, c_p = 0\<rparr>
            :: cstate"
  have h: "(0 :: int) \<le> 3" "(3 :: int) < 2147483648" "(1 :: int) \<le> 1" "(1 :: int) \<le> 9"
    by simp_all
  have "fst (Decompress (Compress_out ?c (bytes [7, 8, 9]) 3 (\<lambda>_. 0) 1)
               (Compress ?c (bytes [7, 8, 9]) 3 (\<lambda>_. 0) 1) (\<lambda>_. 0) 3) = 3
        \<and> (\<forall>k. 0 \<le> k \<and> k < 3 \<longrightarrow>
              snd (Decompress (Compress_out ?c (bytes [7, 8, 9]) 3 (\<lambda>_. 0) 1)
                     (Compress ?c (bytes [7, 8, 9]) 3 (\<lambda>_. 0) 1) (\<lambda>_. 0) 3) k
              = bytes [7, 8, 9] k)"
    by (rule Compress_Decompress_roundtrip [OF h]) simp
  thus ?thesis by (simp add: bytes_def)
qed

section \<open>A stream that lacks its last byte is rejected\<close>

text \<open>
  Claim C8.  Take an input of \<open>in_len\<close> bytes, \<open>1 \<le> in_len < 2^31\<close>, and a level from 1 to
  9, and let \<open>Compress\<close> return the length \<open>n\<close>.  Let \<open>cb\<close> be a buffer that holds the first
  \<open>n - 1\<close> bytes that \<open>Compress\<close> has written; the bytes of \<open>cb\<close> from offset \<open>n - 1\<close> on are
  arbitrary.  Then \<open>Decompress\<close>, run on \<open>cb\<close> with the length \<open>n - 1\<close> and the capacity
  \<open>in_len\<close>, returns \<open>-1\<close>.
\<close>

theorem Decompress_rejects_truncated:
  assumes "1 \<le> in_len" and "in_len < 2147483648" and "1 \<le> level" and "level \<le> 9"
      and "\<And>q. 0 \<le> q \<Longrightarrow> q < Compress c inb in_len out level - 1 \<Longrightarrow>
                cb q = Compress_out c inb in_len out level q"
  shows "fst (Decompress cb (Compress c inb in_len out level - 1) od in_len) = - 1"
proof -
  let ?st = "Compress_init c out"
  let ?F = "Fin inb in_len level ?st"
  have "0 \<le> in_len" using assms(1) by simp
  hence inv: "enc_inv in_len ?st" by (rule enc_inv_init)
  have C: "Compress c inb in_len out level = c_op ?F" "Compress_out c inb in_len out level = c_out ?F"
    by (simp_all add: Compress_def Compress_out_def Compress_state_Fin)
  have ag: "agree cb (c_out ?F) (c_op ?st) (c_op ?F - 1)"
    using assms(5) by (simp add: agree_def C Compress_init_fields)
  have w: "c_p ?st < in_len \<or> 0 < c_run ?st" using assms(1) by (simp add: Compress_init_fields)
  have "fst (Decompress_loop cb (c_op ?F - 1) in_len (c_op ?st) (c_p ?st - c_run ?st) od) = - 1"
    using Fin_truncated [OF inv assms(2), of inb level] w ag by blast
  thus ?thesis by (simp add: Decompress_def C Compress_init_fields)
qed

theorem Decompress_rejects_truncated_witness:
  "(1 :: int) \<le> 3 \<and> (3 :: int) < 2147483648 \<and> (1 :: int) \<le> 1 \<and> (1 :: int) \<le> 9
   \<and> fst (Decompress
        (Compress_out \<lparr>Head = (\<lambda>_. 0), Tail = (\<lambda>_. 0), c_out = (\<lambda>_. 0), c_op = 0, c_run = 0, c_p = 0\<rparr>
           (bytes [7, 8, 9]) 3 (\<lambda>_. 0) 1)
        (Compress \<lparr>Head = (\<lambda>_. 0), Tail = (\<lambda>_. 0), c_out = (\<lambda>_. 0), c_op = 0, c_run = 0, c_p = 0\<rparr>
           (bytes [7, 8, 9]) 3 (\<lambda>_. 0) 1 - 1)
        (\<lambda>_. 0) 3) = - 1"
proof -
  let ?c = "\<lparr>Head = (\<lambda>_. 0), Tail = (\<lambda>_. 0), c_out = (\<lambda>_. 0), c_op = 0, c_run = 0, c_p = 0\<rparr>
            :: cstate"
  have h: "(1 :: int) \<le> 3" "(3 :: int) < 2147483648" "(1 :: int) \<le> 1" "(1 :: int) \<le> 9"
    by simp_all
  have "fst (Decompress (Compress_out ?c (bytes [7, 8, 9]) 3 (\<lambda>_. 0) 1)
               (Compress ?c (bytes [7, 8, 9]) 3 (\<lambda>_. 0) 1 - 1) (\<lambda>_. 0) 3) = - 1"
    by (rule Decompress_rejects_truncated [OF h]) simp
  thus ?thesis by simp
qed

end
